theory Spec2Isabelle
  imports Complex_Main "HOL-Library.Code_Target_Nat"
begin

section \<open>Strings, numbers and regular expressions of the host language\<close>

text \<open>
  A string of the program is a sequence of UTF-16 code units; a code unit is modelled by
  its numeric value. Numbers of the program are modelled as unbounded integers (the
  program's doubles are exact on integers of magnitude below \<open>2 ^ 53\<close>).
\<close>

type_synonym ustring = "nat list"

definition ustr :: "string \<Rightarrow> ustring" where
  "ustr s = map of_char s"

definition is_digit :: "nat \<Rightarrow> bool" where
  "is_digit c = (48 \<le> c \<and> c \<le> 57)"

definition is_upper :: "nat \<Rightarrow> bool" where
  "is_upper c = (65 \<le> c \<and> c \<le> 90)"

definition is_lower :: "nat \<Rightarrow> bool" where
  "is_lower c = (97 \<le> c \<and> c \<le> 122)"

text \<open>The class \<open>\s\<close>: white space and line terminators of the language.\<close>

definition is_space :: "nat \<Rightarrow> bool" where
  "is_space c = (c = 9 \<or> c = 10 \<or> c = 11 \<or> c = 12 \<or> c = 13 \<or> c = 32 \<or> c = 160
     \<or> c = 5760 \<or> (8192 \<le> c \<and> c \<le> 8202) \<or> c = 8232 \<or> c = 8233 \<or> c = 8239
     \<or> c = 8287 \<or> c = 12288 \<or> c = 65279)"

text \<open>The class \<open>\w\<close>.\<close>

definition is_word :: "nat \<Rightarrow> bool" where
  "is_word c = (is_digit c \<or> is_upper c \<or> is_lower c \<or> c = 95)"

text \<open>The class \<open>.\<close>: anything but a line terminator.\<close>

definition is_dot :: "nat \<Rightarrow> bool" where
  "is_dot c = (c \<noteq> 10 \<and> c \<noteq> 13 \<and> c \<noteq> 8232 \<and> c \<noteq> 8233)"

text \<open>
  A literal character under the flag \<open>i\<close> (without the flag \<open>u\<close>): an ASCII letter matches
  its two cases, any other literal matches itself only.
\<close>

definition ci :: "char \<Rightarrow> nat \<Rightarrow> bool" where
  "ci l c = (let k = of_char l in
     c = k \<or> (is_lower k \<and> c + 32 = k) \<or> (is_upper k \<and> c = k + 32))"

definition lit :: "char \<Rightarrow> nat \<Rightarrow> bool" where
  "lit l c = (c = of_char l)"

text \<open>
  Regular expressions, as far as the program uses them: character classes, sequence,
  alternation, the greedy quantifiers \<open>?\<close> and \<open>*\<close>, and capture groups.
\<close>

datatype re =
    Atom "nat \<Rightarrow> bool"
  | Eps
  | Seq re re
  | Alt re re
  | Opt re
  | Star re
  | Grp nat re

type_synonym caps = "(nat \<times> ustring) list"

text \<open>
  The backtracking matcher: all the ways the expression matches a prefix of the input,
  as the remaining input and the captures, in the order the backtracking of the language
  tries them (greedy first). An iteration of \<open>*\<close> that consumes nothing is rejected, as
  in the language.
\<close>

definition close_grp :: "nat \<Rightarrow> ustring \<Rightarrow> ustring \<times> caps \<Rightarrow> ustring \<times> caps" where
  "close_grp n s st = (fst st, (n, take (length s - length (fst st)) s) # snd st)"

function ms :: "re \<Rightarrow> ustring \<times> caps \<Rightarrow> (ustring \<times> caps) list" where
  "ms (Atom p) ([], c) = []"
| "ms (Atom p) (x # xs, c) = (if p x then [(xs, c)] else [])"
| "ms Eps st = [st]"
| "ms (Seq a b) st = concat (map (ms b) (ms a st))"
| "ms (Alt a b) st = ms a st @ ms b st"
| "ms (Opt a) st = ms a st @ [st]"
| "ms (Star a) st =
     concat (map (\<lambda>st'. if length (fst st') < length (fst st) then ms (Star a) st' else [])
                 (ms a st)) @ [st]"
| "ms (Grp n a) st = map (close_grp n (fst st)) (ms a st)"
  by pat_completeness auto
termination
  by (relation "measures [\<lambda>(r, st). size r, \<lambda>(r, st). length (fst st)]") auto

text \<open>The two maps of the matcher, named so that they can be evaluated by rewriting.\<close>

definition mss :: "re \<Rightarrow> (ustring \<times> caps) list \<Rightarrow> (ustring \<times> caps) list" where
  "mss r sts = concat (map (ms r) sts)"

definition star :: "re \<Rightarrow> nat \<Rightarrow> (ustring \<times> caps) list \<Rightarrow> (ustring \<times> caps) list" where
  "star a n sts = concat (map (\<lambda>st'. if length (fst st') < n then ms (Star a) st' else []) sts)"

definition Plus :: "re \<Rightarrow> re" where
  "Plus a = Seq a (Star a)"

fun Lits :: "(char \<Rightarrow> nat \<Rightarrow> bool) \<Rightarrow> string \<Rightarrow> re" where
  "Lits f [] = Eps"
| "Lits f [x] = Atom (f x)"
| "Lits f (x # y # xs) = Seq (Atom (f x)) (Lits f (y # xs))"

fun Seqs :: "re list \<Rightarrow> re" where
  "Seqs [] = Eps"
| "Seqs [r] = r"
| "Seqs (r # r' # rs) = Seq r (Seqs (r' # rs))"

abbreviation W :: "string \<Rightarrow> re" where
  "W s \<equiv> Lits ci s"

abbreviation S :: re where
  "S \<equiv> Atom is_space"

abbreviation D :: re where
  "D \<equiv> Atom is_digit"

text \<open>\<open>a{n}\<close> and \<open>a{0,n}\<close>; \<open>a{m,n}\<close> is \<open>a{m}\<close> followed by \<open>a{0,n-m}\<close>.\<close>

fun Rep :: "nat \<Rightarrow> re \<Rightarrow> re" where
  "Rep 0 a = Eps"
| "Rep (Suc n) a = Seq a (Rep n a)"

fun Upto :: "nat \<Rightarrow> re \<Rightarrow> re" where
  "Upto 0 a = Eps"
| "Upto (Suc n) a = Opt (Seq a (Upto n a))"

definition cap :: "caps \<Rightarrow> nat \<Rightarrow> ustring option" where
  "cap c n = map_of c n"

definition the_default :: "'a \<Rightarrow> 'a option \<Rightarrow> 'a" where
  "the_default d x = (case x of None \<Rightarrow> d | Some y \<Rightarrow> y)"

text \<open>
  \<open>exec\<close>: the leftmost match. The result is the text before the match, the text after
  it, and the captures.
\<close>

fun exec_from :: "re \<Rightarrow> ustring \<Rightarrow> ustring \<Rightarrow> (ustring \<times> ustring \<times> caps) option" where
  "exec_from r pre [] =
     (case ms r ([], []) of st # _ \<Rightarrow> Some (rev pre, fst st, snd st) | [] \<Rightarrow> None)"
| "exec_from r pre (x # xs) =
     (case ms r (x # xs, []) of
        st # _ \<Rightarrow> Some (rev pre, fst st, snd st)
      | [] \<Rightarrow> exec_from r (x # pre) xs)"

definition re_match :: "re \<Rightarrow> ustring \<Rightarrow> caps option" where
  "re_match r s = map_option (\<lambda>m. snd (snd m)) (exec_from r [] s)"

definition re_test :: "re \<Rightarrow> ustring \<Rightarrow> bool" where
  "re_test r s = (exec_from r [] s \<noteq> None)"

text \<open>
  \<open>replace\<close> with a global expression: every match, left to right, is replaced by what
  the callback returns for its captures; after an empty match the scan moves on by one
  code unit.
\<close>

fun re_replace :: "re \<Rightarrow> (caps \<Rightarrow> ustring) \<Rightarrow> ustring \<Rightarrow> ustring" where
  "re_replace r f [] = (case ms r ([], []) of st # _ \<Rightarrow> f (snd st) | [] \<Rightarrow> [])"
| "re_replace r f (x # xs) =
     (case ms r (x # xs, []) of
        st # _ \<Rightarrow>
          if length (fst st) < Suc (length xs) then f (snd st) @ re_replace r f (fst st)
          else f (snd st) @ x # re_replace r f xs
      | [] \<Rightarrow> x # re_replace r f xs)"

text \<open>\<open>split\<close> on an expression without captures.\<close>

fun re_split :: "re \<Rightarrow> ustring \<Rightarrow> ustring \<Rightarrow> ustring list" where
  "re_split r cur [] = [rev cur]"
| "re_split r cur (x # xs) =
     (case ms r (x # xs, []) of
        st # _ \<Rightarrow>
          if length (fst st) < Suc (length xs) then rev cur # re_split r [] (fst st)
          else re_split r (x # cur) xs
      | [] \<Rightarrow> re_split r (x # cur) xs)"

text \<open>\<open>parseInt(s, 10)\<close> on a string of digits, and the decimal rendering of a number.\<close>

definition parseInt :: "ustring \<Rightarrow> int" where
  "parseInt s = foldl (\<lambda>a c. 10 * a + (int c - 48)) 0 s"

fun dec_nat :: "nat \<Rightarrow> ustring" where
  "dec_nat n = (if n < 10 then [48 + n] else dec_nat (n div 10) @ [48 + n mod 10])"

definition dec :: "int \<Rightarrow> ustring" where
  "dec i = (if i < 0 then 45 # dec_nat (nat (- i)) else dec_nat (nat i))"

definition join :: "ustring \<Rightarrow> ustring list \<Rightarrow> ustring" where
  "join sep xs = concat (case xs of [] \<Rightarrow> [] | y # ys \<Rightarrow> y # map (\<lambda>z. sep @ z) ys)"

text \<open>The remainder operator \<open>%\<close> of the language truncates towards zero.\<close>

definition js_rem :: "int \<Rightarrow> int \<Rightarrow> int" where
  "js_rem a b = sgn a * (\<bar>a\<bar> mod \<bar>b\<bar>)"

section \<open>Duration rendering\<close>

definition formatDuration :: "int \<Rightarrow> ustring" where
  "formatDuration totalSeconds =
     (let days = totalSeconds div 86400;
          hours = (js_rem totalSeconds 86400) div 3600;
          mins = (js_rem totalSeconds 3600) div 60
      in if days > 0 then
           (if hours > 0 then dec days @ ustr ''d '' @ dec hours @ ustr ''h''
            else dec days @ ustr ''d'')
         else if hours > 0 then
           (if mins > 0 then dec hours @ ustr ''h'' @ dec mins @ ustr ''m''
            else dec hours @ ustr ''h'')
         else if mins > 0 then dec mins @ ustr ''m''
         else ustr ''< 1m'')"


section \<open>ANSI stripping\<close>

text \<open>\<^verbatim>\<open>/\x1B\[(\d*)C/g\<close>\<close>

definition CURSOR_FWD_RE :: re where
  "CURSOR_FWD_RE = Seqs [Atom (\<lambda>c. c = 27), Atom (lit CHR ''[''), Grp 1 (Star D), Atom (lit CHR ''C'')]"

text \<open>\<^verbatim>\<open>/\x1B(?:[@-Z\\-_]|\[[0-?]*[ -/]*[@-~]|\][^\x07\x1B]*(?:\x07|\x1B\\))/g\<close>\<close>

definition ANSI_RE :: re where
  "ANSI_RE = Seq (Atom (\<lambda>c. c = 27))
     (Alt (Atom (\<lambda>c. (64 \<le> c \<and> c \<le> 90) \<or> (92 \<le> c \<and> c \<le> 95)))
     (Alt (Seqs [Atom (lit CHR ''[''), Star (Atom (\<lambda>c. 48 \<le> c \<and> c \<le> 63)),
                 Star (Atom (\<lambda>c. 32 \<le> c \<and> c \<le> 47)), Atom (\<lambda>c. 64 \<le> c \<and> c \<le> 126)])
          (Seqs [Atom (lit CHR '']''), Star (Atom (\<lambda>c. c \<noteq> 7 \<and> c \<noteq> 27)),
                 Alt (Atom (\<lambda>c. c = 7)) (Seq (Atom (\<lambda>c. c = 27)) (Atom (\<lambda>c. c = 92)))])))"

text \<open>\<^verbatim>\<open>/\r/g\<close> and \<^verbatim>\<open>/[\x00-\x08\x0B\x0C\x0E-\x1F]/g\<close>\<close>

definition CR_RE :: re where
  "CR_RE = Atom (\<lambda>c. c = 13)"

definition is_ctrl :: "nat \<Rightarrow> bool" where
  "is_ctrl c = (c \<le> 8 \<or> c = 11 \<or> c = 12 \<or> (14 \<le> c \<and> c \<le> 31))"

definition CTRL_RE :: re where
  "CTRL_RE = Atom is_ctrl"

text \<open>
  The callback of the first replacement: \<open>n || "1"\<close> is \<open>"1"\<close> when the group is empty,
  the count is capped at 100.
\<close>

definition cursor_spaces :: "caps \<Rightarrow> ustring" where
  "cursor_spaces c =
     (let n = (case cap c 1 of None \<Rightarrow> ustr ''1'' | Some ds \<Rightarrow> if ds = [] then ustr ''1'' else ds);
          count = min (parseInt n) 100
      in replicate (nat count) 32)"

definition stripAnsi :: "ustring \<Rightarrow> ustring" where
  "stripAnsi raw =
     (let s = re_replace CURSOR_FWD_RE cursor_spaces raw;
          s = re_replace ANSI_RE (\<lambda>_. []) s;
          s = re_replace CR_RE (\<lambda>_. [10]) s;
          s = re_replace CTRL_RE (\<lambda>_. []) s
      in s)"

section \<open>Data model\<close>

datatype qtype = Session | Weekly | Opus | Sonnet

text \<open>
  \<open>resets_at\<close> is the ISO rendering of an instant, or the empty string: it is modelled by
  the instant (milliseconds since the epoch), \<open>None\<close> for the empty string.
\<close>

record Quota =
  qtype :: qtype
  percent_remaining :: int
  resets_at :: "int option"
  time_remaining_seconds :: int
  time_remaining_human :: ustring

text \<open>A parsed decimal: \<open>NaN\<close> or a finite value.\<close>

datatype jsnum = NaN | Fin rat

record CostUsage =
  spent :: jsnum
  budget :: jsnum

record AuthError =
  Code :: ustring
  Message :: ustring

record UsageData =
  account_type :: ustring
  email :: ustring
  quotas :: "Quota list option"
  cost_usage :: CostUsage
  captured_at :: int
  auth_error :: "AuthError option"

datatype ReadResult =
    Ok UsageData
  | NotAuthenticated ustring
  | NotTrusted ustring
  | Error ustring

text \<open>The only exception the parser can raise: a \<open>RangeError\<close> of the date functions.\<close>

datatype exn = RangeError

definition AUTH_ERROR_CODES :: "ustring list" where
  "AUTH_ERROR_CODES =
     [ustr ''setup_required'', ustr ''not_logged_in'', ustr ''token_expired'',
      ustr ''no_subscription'']"

section \<open>Text parsers\<close>

text \<open>The optional prefix \<^verbatim>\<open>(?:\<cdot>\s*)?\<close> of the plan names; the dot is U+00B7.\<close>

definition plan_re :: "string \<Rightarrow> re" where
  "plan_re name =
     Seqs [Opt (Seq (Atom (\<lambda>c. c = 183)) (Star S)), W ''claude'', Plus S, W name]"

fun parseAccountType :: "ustring list \<Rightarrow> ustring" where
  "parseAccountType [] = ustr ''unknown''"
| "parseAccountType (line # lines) =
     (if re_test (plan_re ''max'') line then ustr ''Claude Max''
      else if re_test (plan_re ''pro'') line then ustr ''Claude Pro''
      else if re_test (plan_re ''team'') line then ustr ''Claude Team''
      else if re_test (plan_re ''enterprise'') line then ustr ''Claude Enterprise''
      else if re_test (plan_re ''api'') line then ustr ''Claude API''
      else if re_test (plan_re ''free'') line then ustr ''Claude Free''
      else parseAccountType lines)"

text \<open>\<^verbatim>\<open>(\S+@\S+)\<close> as group 1.\<close>

definition addr_re :: re where
  "addr_re = Grp 1 (Seqs [Plus (Atom (\<lambda>c. \<not> is_space c)), Atom (lit CHR ''@''),
                          Plus (Atom (\<lambda>c. \<not> is_space c))])"

definition EMAIL_PLAN_RE :: re where
  "EMAIL_PLAN_RE =
     Seqs [Atom (\<lambda>c. c = 183), Star S, W ''claude'', Plus S, Alt (W ''pro'') (W ''max''),
           Star S, Atom (\<lambda>c. c = 183), Star S, addr_re]"

definition EMAIL_FIELD_RE :: re where
  "EMAIL_FIELD_RE = Seqs [Alt (W ''Email'') (W ''Account''), W '':'', Star S, addr_re]"

fun parseEmail :: "ustring list \<Rightarrow> ustring" where
  "parseEmail [] = []"
| "parseEmail (line # lines) =
     (case re_match EMAIL_PLAN_RE line of
        Some m \<Rightarrow> the_default [] (cap m 1)
      | None \<Rightarrow>
          (case re_match EMAIL_FIELD_RE line of
             Some m \<Rightarrow> the_default [] (cap m 1)
           | None \<Rightarrow> parseEmail lines))"

text \<open>The table \<open>AUTH_PATTERNS\<close>: pattern, code, message.\<close>

definition AUTH_PATTERNS :: "(re \<times> ustring \<times> ustring) list" where
  "AUTH_PATTERNS =
     [(Seqs [W ''let'', Opt (Atom is_dot), W ''s'', Plus S, W ''get'', Plus S, W ''started''],
       ustr ''setup_required'',
       ustr ''Claude CLI setup required. Run 'claude' in a terminal to complete first-time setup.''),
      (Seqs [Alt (W ''token'') (W ''session''), Star S, Opt (Seq (W ''has'') (Plus S)),
             W ''expired''],
       ustr ''token_expired'',
       ustr ''Claude authentication token expired. Run 'claude' to re-authenticate.''),
      (Seqs [Alt (Seqs [W ''sign'', Star S, W ''in''])
              (Alt (Seqs [W ''log'', Star S, W ''in'']) (W ''authenticate'')),
             Star S,
             Alt (Seqs [W ''to'', Plus S, W ''continue''])
              (Alt (W ''required'') (Seqs [W ''to'', Plus S, W ''use'']))],
       ustr ''not_logged_in'',
       ustr ''Not logged in to Claude. Run 'claude' to authenticate.''),
      (Seqs [W ''no'', Plus S, Opt (Seq (W ''active'') (Plus S)), W ''subscription''],
       ustr ''no_subscription'',
       ustr ''No active Claude subscription found.''),
      (W ''claude.ai/login'',
       ustr ''not_logged_in'',
       ustr ''Not logged in to Claude. Run 'claude' to authenticate.'')]"

fun first_auth :: "(re \<times> ustring \<times> ustring) list \<Rightarrow> ustring \<Rightarrow> AuthError option" where
  "first_auth [] text = None"
| "first_auth ((pattern, code, message) # ps) text =
     (if re_test pattern text then Some \<lparr>Code = code, Message = message\<rparr>
      else first_auth ps text)"

definition detectAuthError :: "ustring list \<Rightarrow> AuthError option" where
  "detectAuthError lines = first_auth AUTH_PATTERNS (join [10] lines)"

section \<open>Time resolver\<close>

text \<open>\<^verbatim>\<open>/(\d+)\s*d(?:ays?)?/i\<close>, \<^verbatim>\<open>/(\d+)\s*h(?:ours?|r)?/i\<close>, \<^verbatim>\<open>/(\d+)\s*m(?:in(?:utes?)?)?/i\<close>\<close>

definition RELATIVE_DAYS :: re where
  "RELATIVE_DAYS = Seqs [Grp 1 (Plus D), Star S, W ''d'', Opt (Seqs [W ''ay'', Opt (W ''s'')])]"

definition RELATIVE_HOURS :: re where
  "RELATIVE_HOURS =
     Seqs [Grp 1 (Plus D), Star S, W ''h'', Opt (Alt (Seqs [W ''our'', Opt (W ''s'')]) (W ''r''))]"

definition RELATIVE_MINS :: re where
  "RELATIVE_MINS =
     Seqs [Grp 1 (Plus D), Star S, W ''m'',
           Opt (Seqs [W ''in'', Opt (Seqs [W ''ute'', Opt (W ''s'')])])]"

text \<open>\<^verbatim>\<open>/\(([A-Za-z_/]+)\)/\<close>\<close>

definition TZ_RE :: re where
  "TZ_RE = Seqs [Atom (lit CHR ''(''),
                 Grp 1 (Plus (Atom (\<lambda>c. is_upper c \<or> is_lower c \<or> c = 95 \<or> c = 47))),
                 Atom (lit CHR '')'')]"

text \<open>\<^verbatim>\<open>/(\d{1,2})(?::(\d{2}))?\s*(am|pm)/i\<close>\<close>

definition TIME_ONLY_RE :: re where
  "TIME_ONLY_RE =
     Seqs [Grp 1 (Seq D (Upto 1 D)), Opt (Seq (W '':'') (Grp 2 (Rep 2 D))), Star S,
           Grp 3 (Alt (W ''am'') (W ''pm''))]"

text \<open>\<^verbatim>\<open>/(\w{3,9})\s+(\d{1,2})(?:,?\s+(\d{4}))?\s+(?:at\s+)?(\d{1,2})(?::(\d{2}))?\s*(am|pm)/i\<close>\<close>

definition DATE_TIME_RE :: re where
  "DATE_TIME_RE =
     Seqs [Grp 1 (Seq (Rep 3 (Atom is_word)) (Upto 6 (Atom is_word))), Plus S,
           Grp 2 (Seq D (Upto 1 D)),
           Opt (Seqs [Opt (W '',''), Plus S, Grp 3 (Rep 4 D)]), Plus S,
           Opt (Seq (W ''at'') (Plus S)),
           Grp 4 (Seq D (Upto 1 D)), Opt (Seq (W '':'') (Grp 5 (Rep 2 D))), Star S,
           Grp 6 (Alt (W ''am'') (W ''pm''))]"

text \<open>\<open>toLowerCase\<close>, on the ASCII letters (all that the captured words can hold).\<close>

definition toLowerCase :: "ustring \<Rightarrow> ustring" where
  "toLowerCase s = map (\<lambda>c. if is_upper c then c + 32 else c) s"

definition toHour24 :: "int \<Rightarrow> ustring \<Rightarrow> int" where
  "toHour24 hour ampm =
     (let h = hour;
          h = (if toLowerCase ampm = ustr ''pm'' \<and> h < 12 then h + 12 else h);
          h = (if toLowerCase ampm = ustr ''am'' \<and> h = 12 then 0 else h)
      in h)"

text \<open>
  The host: the clock, the dates of the zone of the system, the formatter with its time
  zone database, and the date parser. \<open>now\<close> is the reading of the clock (milliseconds
  since the epoch), the same during one parse. \<open>localParts t\<close> holds what \<open>getFullYear\<close>,
  \<open>getMonth\<close> (from 0), \<open>getDate\<close>, \<open>getHours\<close> and \<open>getMinutes\<close> read from
  \<open>new Date(t)\<close>. \<open>mkLocalTime y mo d h mi\<close> is \<open>new Date(y, mo, d, h, mi, 0).getTime()\<close>,
  \<open>None\<close> where it is \<open>NaN\<close>. \<open>tzParts tz t\<close> holds the numbers that the formatter of
  \<open>getNowInTz\<close> prints for the instant \<open>t\<close> in the zone named \<open>tz\<close> (the month from 1),
  \<open>None\<close> for a name the database does not know, where the formatter raises a
  \<open>RangeError\<close>. \<open>monthIndex w\<close> is the month of the date the host parses from
  \<open>w\<close> followed by \<open>" 1, 2000"\<close>, \<open>None\<close> for an invalid date. Nothing is taken for
  granted about the offsets of the zones: they are the host's.
\<close>

record civil =
  year :: int
  month :: int
  day :: int
  hour :: int
  minute :: int

record host =
  now :: int
  localParts :: "int \<Rightarrow> civil"
  mkLocalTime :: "int \<Rightarrow> int \<Rightarrow> int \<Rightarrow> int \<Rightarrow> int \<Rightarrow> int option"
  tzParts :: "ustring \<Rightarrow> int \<Rightarrow> civil option"
  monthIndex :: "ustring \<Rightarrow> int option"

text \<open>\<open>toISOString\<close> raises on an instant outside the range of dates.\<close>

definition toISOString :: "int \<Rightarrow> exn + int" where
  "toISOString t = (if \<bar>t\<bar> \<le> 8640000000000000 then Inr t else Inl RangeError)"

definition getNowInTz :: "host \<Rightarrow> ustring \<Rightarrow> exn + civil" where
  "getNowInTz p tz =
     (case tzParts p tz (now p) of
        None \<Rightarrow> Inl RangeError
      | Some parts \<Rightarrow>
          Inr \<lparr>year = year parts, month = month parts - 1, day = day parts,
               hour = hour parts, minute = minute parts\<rparr>)"

text \<open>
  \<open>computeDiffSeconds\<close>; the month is \<open>None\<close> where the program holds \<open>NaN\<close>, which
  makes the target an invalid date. A difference with an invalid date is \<open>NaN\<close>, and the
  rendering of the instant raises.
\<close>

definition computeDiffSeconds ::
  "host \<Rightarrow> int \<Rightarrow> int option \<Rightarrow> int \<Rightarrow> int \<Rightarrow> int \<Rightarrow> ustring option \<Rightarrow> exn + (int \<times> int)" where
  "computeDiffSeconds p targetY targetMo targetD targetH targetMin tz =
     (let targetAsLocal =
            (case targetMo of
               None \<Rightarrow> None
             | Some mo \<Rightarrow> mkLocalTime p targetY mo targetD targetH targetMin)
      in (case (case tz of
                  Some z \<Rightarrow>
                    (case getNowInTz p z of
                       Inl e \<Rightarrow> Inl e
                     | Inr c \<Rightarrow> Inr (mkLocalTime p (year c) (month c) (day c) (hour c) (minute c)))
                | None \<Rightarrow>
                    (let n = localParts p (now p)
                     in Inr (mkLocalTime p (year n) (month n) (day n) (hour n) (minute n)))) of
            Inl e \<Rightarrow> Inl e
          | Inr nowAsLocal \<Rightarrow>
              (case targetAsLocal of
                 None \<Rightarrow> Inl RangeError
               | Some t \<Rightarrow>
                   (case nowAsLocal of
                      None \<Rightarrow> Inl RangeError
                    | Some n \<Rightarrow>
                        (let diffMs = t - n;
                             diffSeconds = max 0 (diffMs div 1000)
                         in (case toISOString (now p + diffMs) of
                               Inl e \<Rightarrow> Inl e
                             | Inr resetsAt \<Rightarrow> Inr (diffSeconds, resetsAt)))))))"

definition group1 :: "re \<Rightarrow> ustring \<Rightarrow> ustring option" where
  "group1 r line = (case re_match r line of None \<Rightarrow> None | Some m \<Rightarrow> cap m 1)"

text \<open>The part of \<open>parseAbsoluteTime\<close> after the date match: a clock time without a date.\<close>

definition parseTimeOnly :: "host \<Rightarrow> ustring option \<Rightarrow> ustring \<Rightarrow> exn + (int \<times> int) option" where
  "parseTimeOnly p tz line =
     (case re_match TIME_ONLY_RE line of
        None \<Rightarrow> Inr None
      | Some m \<Rightarrow>
          (let h = toHour24 (parseInt (the_default [] (cap m 1))) (the_default [] (cap m 3));
               mi = (case cap m 2 of Some s \<Rightarrow> parseInt s | None \<Rightarrow> 0)
           in (case (case tz of
                       Some z \<Rightarrow> getNowInTz p z
                     | None \<Rightarrow> Inr (localParts p (now p))) of
                 Inl e \<Rightarrow> Inl e
               | Inr c \<Rightarrow>
                   (case computeDiffSeconds p (year c) (Some (month c)) (day c) h mi tz of
                      Inl e \<Rightarrow> Inl e
                    | Inr result \<Rightarrow>
                        if fst result \<le> 0 then
                          (case computeDiffSeconds p (year c) (Some (month c)) (day c + 1) h mi tz of
                             Inl e \<Rightarrow> Inl e
                           | Inr result' \<Rightarrow> Inr (Some result'))
                        else Inr (Some result)))))"

text \<open>The result of \<open>parseAbsoluteTime\<close>: the remaining seconds and the instant of the reset.\<close>

definition parseAbsoluteTime :: "host \<Rightarrow> ustring \<Rightarrow> exn + (int \<times> int) option" where
  "parseAbsoluteTime p line =
     (let tz = group1 TZ_RE line
      in (case re_match DATE_TIME_RE line of
            Some m \<Rightarrow>
              (let y = (case cap m 3 of
                          Some s \<Rightarrow> parseInt s
                        | None \<Rightarrow> year (localParts p (now p)));
                   h = toHour24 (parseInt (the_default [] (cap m 4))) (the_default [] (cap m 6));
                   mi = (case cap m 5 of Some s \<Rightarrow> parseInt s | None \<Rightarrow> 0);
                   monthIdx = monthIndex p (the_default [] (cap m 1))
               in (case computeDiffSeconds p y monthIdx (parseInt (the_default [] (cap m 2))) h mi tz of
                     Inl e \<Rightarrow> Inl e
                   | Inr result \<Rightarrow>
                       if fst result \<ge> 0 then Inr (Some result) else parseTimeOnly p tz line))
          | None \<Rightarrow> parseTimeOnly p tz line))"

text \<open>\<^verbatim>\<open>/rese\s*t?\s*s|renew/i\<close>, \<^verbatim>\<open>/\d{1,2}\s*(?:am|pm)/i\<close>, \<^verbatim>\<open>/(\d{1,3})\s*%\s*(used|left)/i\<close>\<close>

definition RESET_WORD_RE :: re where
  "RESET_WORD_RE = Alt (Seqs [W ''rese'', Star S, Opt (W ''t''), Star S, W ''s'']) (W ''renew'')"

definition CLOCK_RE :: re where
  "CLOCK_RE = Seqs [D, Upto 1 D, Star S, Alt (W ''am'') (W ''pm'')]"

definition PERCENT_RE :: re where
  "PERCENT_RE =
     Seqs [Grp 1 (Seq D (Upto 2 D)), Star S, W ''%'', Star S, Grp 2 (Alt (W ''used'') (W ''left''))]"

text \<open>The reset information of a record: \<open>resets_at\<close>, the seconds, the rendering.\<close>

type_synonym reset_info = "int option \<times> int \<times> ustring"

definition relativeTime :: "host \<Rightarrow> ustring \<Rightarrow> (exn + reset_info) option" where
  "relativeTime p line =
     (let dMatch = group1 RELATIVE_DAYS line;
          hMatch = group1 RELATIVE_HOURS line;
          mMatch = group1 RELATIVE_MINS line
      in if dMatch \<noteq> None \<or> hMatch \<noteq> None \<or> mMatch \<noteq> None then
           (let days = (case dMatch of Some s \<Rightarrow> parseInt s | None \<Rightarrow> 0);
                hours = (case hMatch of Some s \<Rightarrow> parseInt s | None \<Rightarrow> 0);
                mins = (case mMatch of Some s \<Rightarrow> parseInt s | None \<Rightarrow> 0);
                totalSeconds = days * 86400 + hours * 3600 + mins * 60
            in Some (case toISOString (now p + totalSeconds * 1000) of
                       Inl e \<Rightarrow> Inl e
                     | Inr resetsAt \<Rightarrow> Inr (Some resetsAt, totalSeconds, formatDuration totalSeconds)))
         else None)"

definition absoluteInfo :: "int \<times> int \<Rightarrow> reset_info" where
  "absoluteInfo ab = (Some (snd ab), fst ab, formatDuration (fst ab))"

text \<open>The two passes of \<open>parseResetTime\<close>; \<open>None\<close> when a pass falls through.\<close>

fun firstPass :: "host \<Rightarrow> ustring list \<Rightarrow> exn + reset_info option" where
  "firstPass p [] = Inr None"
| "firstPass p (line # rest) =
     (if \<not> re_test RESET_WORD_RE line then firstPass p rest
      else (case relativeTime p line of
              Some r \<Rightarrow> (case r of Inl e \<Rightarrow> Inl e | Inr info \<Rightarrow> Inr (Some info))
            | None \<Rightarrow>
                (case parseAbsoluteTime p line of
                   Inl e \<Rightarrow> Inl e
                 | Inr (Some ab) \<Rightarrow> Inr (Some (absoluteInfo ab))
                 | Inr None \<Rightarrow> firstPass p rest)))"

fun secondPass :: "host \<Rightarrow> ustring list \<Rightarrow> exn + reset_info option" where
  "secondPass p [] = Inr None"
| "secondPass p (line # rest) =
     (if \<not> re_test CLOCK_RE line then secondPass p rest
      else if re_test PERCENT_RE line then secondPass p rest
      else (case parseAbsoluteTime p line of
              Inl e \<Rightarrow> Inl e
            | Inr (Some ab) \<Rightarrow> Inr (Some (absoluteInfo ab))
            | Inr None \<Rightarrow> secondPass p rest))"

definition parseResetTime :: "host \<Rightarrow> ustring list \<Rightarrow> exn + reset_info" where
  "parseResetTime p contextLines =
     (case firstPass p contextLines of
        Inl e \<Rightarrow> Inl e
      | Inr (Some info) \<Rightarrow> Inr info
      | Inr None \<Rightarrow>
          (case secondPass p contextLines of
             Inl e \<Rightarrow> Inl e
           | Inr (Some info) \<Rightarrow> Inr info
           | Inr None \<Rightarrow> Inr (None, 0, [])))"

section \<open>Quota extraction\<close>

definition QUOTA_LABELS :: "(re \<times> qtype) list" where
  "QUOTA_LABELS =
     [(Seqs [W ''current'', Plus S, W ''session''], Session),
      (Seqs [W ''current'', Plus S, W ''week'', Star S, W ''(all'', Plus S, W ''model'',
             Opt (W ''s''), W '')''], Weekly),
      (Seqs [W ''current'', Plus S, W ''week'', Star S, W ''(opus'',
             Opt (Seq (Plus S) (W ''only'')), W '')''], Opus),
      (Seqs [W ''current'', Plus S, W ''week'', Star S, W ''(sonnet'',
             Opt (Seq (Plus S) (W ''only'')), W '')''], Sonnet),
      (Seqs [W ''opus'', Plus S, W ''usage''], Opus),
      (Seqs [W ''sonnet'', Plus S, W ''usage''], Sonnet)]"

text \<open>\<^verbatim>\<open>/extra\s+usage/i\<close>, \<^verbatim>\<open>/\$?([\d,]+\.?\d*)\s*\/\s*\$?([\d,]+\.?\d*)\s*spent/i\<close>\<close>

definition COST_SECTION_RE :: re where
  "COST_SECTION_RE = Seqs [W ''extra'', Plus S, W ''usage'']"

definition amount_re :: "nat \<Rightarrow> re" where
  "amount_re n = Grp n (Seqs [Plus (Atom (\<lambda>c. is_digit c \<or> c = 44)), Opt (W ''.''), Star D])"

definition COST_AMOUNT_RE :: re where
  "COST_AMOUNT_RE =
     Seqs [Opt (W ''$''), amount_re 1, Star S, W ''/'', Star S, Opt (W ''$''), amount_re 2,
           Star S, W ''spent'']"

text \<open>\<open>QUOTA_LABELS.find\<close>: the type of the first label pattern that the line matches.\<close>

fun find_label :: "(re \<times> qtype) list \<Rightarrow> ustring \<Rightarrow> qtype option" where
  "find_label [] line = None"
| "find_label ((pattern, ty) # ls) line =
     (if re_test pattern line then Some ty else find_label ls line)"

definition is_boundary :: "ustring \<Rightarrow> bool" where
  "is_boundary line = (find_label QUOTA_LABELS line \<noteq> None \<or> re_test COST_SECTION_RE line)"

text \<open>
  The loops of \<open>parseQuotas\<close> at the index \<open>i\<close> read the lines from \<open>i\<close> on only, so the
  state of the scan is the list of the lines from \<open>i\<close> on. \<open>sectionLength\<close> is
  \<open>findNextSectionBoundary(lines, i) - i\<close>, for the lines after the line \<open>i\<close>;
  \<open>first_percent\<close> is the inner loop, on the lines \<open>i\<close> to \<open>searchEnd - 1\<close>, and gives
  \<open>j - i\<close> with the match.
\<close>

definition sectionLength :: "ustring list \<Rightarrow> nat" where
  "sectionLength rest = Suc (length (takeWhile (\<lambda>l. \<not> is_boundary l) rest))"

fun first_percent :: "ustring list \<Rightarrow> (nat \<times> caps) option" where
  "first_percent [] = None"
| "first_percent (l # ls) =
     (case re_match PERCENT_RE l of
        Some m \<Rightarrow> Some (0, m)
      | None \<Rightarrow> (case first_percent ls of None \<Rightarrow> None | Some km \<Rightarrow> Some (Suc (fst km), snd km)))"

definition percentRemaining :: "caps \<Rightarrow> int" where
  "percentRemaining pMatch =
     (let v = parseInt (the_default [] (cap pMatch 1));
          isUsed = (toLowerCase (the_default [] (cap pMatch 2)) = ustr ''used'')
      in if isUsed then 100 - v else v)"

fun parseQuotas :: "host \<Rightarrow> ustring list \<Rightarrow> exn + Quota list" where
  "parseQuotas p [] = Inr []"
| "parseQuotas p (l # rest) =
     (case find_label QUOTA_LABELS l of
        None \<Rightarrow> parseQuotas p rest
      | Some ty \<Rightarrow>
          (let sectionEnd = sectionLength rest;
               searchEnd = min 6 sectionEnd
           in (case first_percent (take searchEnd (l # rest)) of
                 None \<Rightarrow> parseQuotas p rest
               | Some jm \<Rightarrow>
                   (case parseResetTime p (take sectionEnd (l # rest)) of
                      Inl e \<Rightarrow> Inl e
                    | Inr info \<Rightarrow>
                        (case parseQuotas p (drop (fst jm) rest) of
                           Inl e \<Rightarrow> Inl e
                         | Inr qs \<Rightarrow>
                             Inr (\<lparr>qtype = ty, percent_remaining = percentRemaining (snd jm),
                                   resets_at = fst info, time_remaining_seconds = fst (snd info),
                                   time_remaining_human = snd (snd info)\<rparr> # qs))))))"

section \<open>Cost usage\<close>

text \<open>\<open>replace(",", "")\<close> with a string pattern: the first occurrence only.\<close>

fun replace_first_comma :: "ustring \<Rightarrow> ustring" where
  "replace_first_comma [] = []"
| "replace_first_comma (c # cs) = (if c = 44 then cs else c # replace_first_comma cs)"

text \<open>
  \<open>parseFloat\<close> on a string of digits, commas and dots (all that the groups of the
  amount pattern can hold): the longest prefix that is a decimal literal, \<open>NaN\<close> when
  there is none. The value is the exact decimal.
\<close>

definition parseFloat :: "ustring \<Rightarrow> jsnum" where
  "parseFloat s =
     (let ip = takeWhile is_digit s;
          r = dropWhile is_digit s;
          fp = (case r of [] \<Rightarrow> [] | c # fs \<Rightarrow> if c = 46 then takeWhile is_digit fs else [])
      in if ip = [] \<and> fp = [] then NaN
         else Fin (of_int (parseInt ip) + of_int (parseInt fp) / 10 ^ length fp))"

fun first_amount :: "ustring list \<Rightarrow> caps option" where
  "first_amount [] = None"
| "first_amount (l # ls) =
     (case re_match COST_AMOUNT_RE l of Some m \<Rightarrow> Some m | None \<Rightarrow> first_amount ls)"

text \<open>
  The loop of \<open>parseCostUsage\<close> at the index \<open>i\<close>, as the list of the lines from \<open>i\<close> on;
  the inner loop reads the lines \<open>i\<close> to \<open>min(i + 10, lines.length) - 1\<close>.
\<close>

fun parseCostUsage :: "ustring list \<Rightarrow> CostUsage" where
  "parseCostUsage [] = \<lparr>spent = Fin 0, budget = Fin 0\<rparr>"
| "parseCostUsage (l # rest) =
     (if \<not> re_test COST_SECTION_RE l then parseCostUsage rest
      else (case first_amount (take 10 (l # rest)) of
              Some m \<Rightarrow>
                \<lparr>spent = parseFloat (replace_first_comma (the_default [] (cap m 1))),
                 budget = parseFloat (replace_first_comma (the_default [] (cap m 2)))\<rparr>
            | None \<Rightarrow> parseCostUsage rest))"

section \<open>Main entry point\<close>

text \<open>\<^verbatim>\<open>/\r?\n/\<close>\<close>

definition NEWLINE_RE :: re where
  "NEWLINE_RE = Seq (Opt (Atom (\<lambda>c. c = 13))) (Atom (\<lambda>c. c = 10))"

text \<open>
  \<open>parseCliOutput\<close>. The debug files that it writes first do not enter the result (a
  failure to write them is caught). \<open>Inl\<close> is an exception that leaves the function.
\<close>

definition parseCliOutput :: "host \<Rightarrow> ustring \<Rightarrow> exn + ReadResult" where
  "parseCliOutput p rawOutput =
     (let stripped = stripAnsi rawOutput;
          lines = re_split NEWLINE_RE [] stripped;
          authError = detectAuthError lines
      in (case (case authError of
                  Some e \<Rightarrow> if Code e \<in> set AUTH_ERROR_CODES then Some (Message e) else None
                | None \<Rightarrow> None) of
            Some msg \<Rightarrow> Inr (NotAuthenticated msg)
          | None \<Rightarrow>
              (case parseQuotas p lines of
                 Inl e \<Rightarrow> Inl e
               | Inr qs \<Rightarrow>
                   if length qs = 0 then
                     Inr (Error (ustr ''No quota data found in claude /usage output.''))
                   else
                     Inr (Ok \<lparr>account_type = parseAccountType lines, email = parseEmail lines,
                              quotas = Some qs, cost_usage = parseCostUsage lines,
                              captured_at = now p, auth_error = authError\<rparr>))))"

section \<open>Status text formatting\<close>

definition find_quota :: "UsageData \<Rightarrow> qtype \<Rightarrow> Quota option" where
  "find_quota data ty =
     (case quotas data of None \<Rightarrow> None | Some qs \<Rightarrow> find (\<lambda>q. qtype q = ty) qs)"

definition part :: "ustring \<Rightarrow> Quota \<Rightarrow> ustring" where
  "part prefix q =
     (let used = 100 - percent_remaining q
      in prefix @ dec used @ ustr ''% '' @ time_remaining_human q)"

definition formatStatusText :: "UsageData \<Rightarrow> ustring" where
  "formatStatusText data =
     (let session = find_quota data Session;
          weekly = find_quota data Weekly;
          opus = find_quota data Opus;
          sonnet = find_quota data Sonnet;
          parts = [];
          parts = (case session of Some q \<Rightarrow> parts @ [part [] q] | None \<Rightarrow> parts);
          parts = (case weekly of Some q \<Rightarrow> parts @ [part [] q] | None \<Rightarrow> parts);
          parts = (case opus of Some q \<Rightarrow> parts @ [part (ustr ''opus '') q] | None \<Rightarrow> parts);
          parts = (case sonnet of Some q \<Rightarrow> parts @ [part (ustr ''sonnet '') q] | None \<Rightarrow> parts)
      in join (ustr '' | '') parts)"

section \<open>A host for the scenarios\<close>

text \<open>
  The hosts of the scenarios keep the proleptic Gregorian calendar: the days from the
  epoch to a date, and back.
\<close>

definition days_from_civil :: "int \<Rightarrow> int \<Rightarrow> int \<Rightarrow> int" where
  "days_from_civil y m d =
     (let y' = (if m \<le> 2 then y - 1 else y);
          era = y' div 400;
          yoe = y' mod 400;
          doy = (153 * (if m > 2 then m - 3 else m + 9) + 2) div 5 + d - 1;
          doe = yoe * 365 + yoe div 4 - yoe div 100 + doy
      in era * 146097 + doe - 719468)"

definition civil_from_days :: "int \<Rightarrow> int \<times> int \<times> int" where
  "civil_from_days z0 =
     (let z = z0 + 719468;
          era = z div 146097;
          doe = z mod 146097;
          yoe = (doe - doe div 1460 + doe div 36524 - doe div 146096) div 365;
          y = yoe + era * 400;
          doy = doe - (365 * yoe + yoe div 4 - yoe div 100);
          mp = (5 * doy + 2) div 153;
          d = doy - (153 * mp + 2) div 5 + 1;
          m = (if mp < 10 then mp + 3 else mp - 9)
      in (if m \<le> 2 then y + 1 else y, m, d))"

text \<open>
  The calendar reading (year, month from 0, day, hour, minute) of an instant at an offset
  (minutes), and the same as the formatter prints it (the month from 1). \<open>utc_ms\<close> is
  the time value of the fields of a date: fields out of their range carry over, a year
  from 0 to 99 is in the 20th century. A time value out of the range of dates is \<open>NaN\<close>.
\<close>

definition civil_at :: "int \<Rightarrow> int \<Rightarrow> civil" where
  "civil_at off t =
     (let l = t + off * 60000;
          (y, m, d) = civil_from_days (l div 86400000)
      in \<lparr>year = y, month = m - 1, day = d,
          hour = (l mod 86400000) div 3600000, minute = (l mod 3600000) div 60000\<rparr>)"

definition printed_at :: "int \<Rightarrow> int \<Rightarrow> civil" where
  "printed_at off t =
     (let c = civil_at off t
      in \<lparr>year = year c, month = month c + 1, day = day c, hour = hour c, minute = minute c\<rparr>)"

definition utc_ms :: "int \<Rightarrow> int \<Rightarrow> int \<Rightarrow> int \<Rightarrow> int \<Rightarrow> int" where
  "utc_ms y mo d h mi =
     (let yf = (if 0 \<le> y \<and> y \<le> 99 then 1900 + y else y);
          dayno = days_from_civil (yf + mo div 12) (mo mod 12 + 1) 1 + d - 1
      in dayno * 86400000 + h * 3600000 + mi * 60000)"

definition timeClip :: "int \<Rightarrow> int option" where
  "timeClip t = (if \<bar>t\<bar> \<le> 8640000000000000 then Some t else None)"

text \<open>
  The host of the test suite: the clock reads 2026-02-22T21:40:00Z, the system runs on
  UTC, the database knows the zone America/Toronto (at UTC-5 on that day), and the date
  parser knows the English month names.
\<close>

definition month_names :: "(ustring \<times> int) list" where
  "month_names =
     [(ustr ''jan'', 0), (ustr ''feb'', 1), (ustr ''mar'', 2), (ustr ''apr'', 3),
      (ustr ''may'', 4), (ustr ''jun'', 5), (ustr ''jul'', 6), (ustr ''aug'', 7),
      (ustr ''sep'', 8), (ustr ''oct'', 9), (ustr ''nov'', 10), (ustr ''dec'', 11)]"

definition test_host :: host where
  "test_host =
     \<lparr>now = 1771796400000,
      localParts = civil_at 0,
      mkLocalTime = (\<lambda>y mo d h mi. timeClip (utc_ms y mo d h mi)),
      tzParts = (\<lambda>tz t. if tz = ustr ''America/Toronto'' then Some (printed_at (- 300) t) else None),
      monthIndex = (\<lambda>w. map_of month_names (take 3 (toLowerCase w)))\<rparr>"




section \<open>Statements of the specification\<close>

text \<open>
  The display line as the specification words it: the parts in the order session, weekly,
  opus, sonnet, for the first record of each category, the model categories with their name.
\<close>

definition status_parts :: "Quota list \<Rightarrow> ustring list" where
  "status_parts qs =
     List.map_filter
       (\<lambda>(ty, prefix).
          map_option
            (\<lambda>q. prefix @ dec (100 - percent_remaining q) @ ustr ''% '' @ time_remaining_human q)
            (find (\<lambda>q. qtype q = ty) qs))
       [(Session, []), (Weekly, []), (Opus, ustr ''opus ''), (Sonnet, ustr ''sonnet '')]"

text \<open>The three records of the formatting scenario.\<close>

definition scenario_quotas :: "Quota list" where
  "scenario_quotas =
     [\<lparr>qtype = Session, percent_remaining = 86, resets_at = Some 1771808400000,
       time_remaining_seconds = 12000, time_remaining_human = ustr ''3h20m''\<rparr>,
      \<lparr>qtype = Weekly, percent_remaining = 93, resets_at = Some 1772236800000,
       time_remaining_seconds = 440400, time_remaining_human = ustr ''5d 2h''\<rparr>,
      \<lparr>qtype = Sonnet, percent_remaining = 100, resets_at = Some 1772395200000,
       time_remaining_seconds = 598800, time_remaining_human = ustr ''6d 22h''\<rparr>]"

definition scenario_data :: UsageData where
  "scenario_data =
     \<lparr>account_type = ustr ''Claude Team'', email = [], quotas = Some scenario_quotas,
      cost_usage = \<lparr>spent = Fin 0, budget = Fin 0\<rparr>, captured_at = 1771796400000,
      auth_error = None\<rparr>"

text \<open>
  The lines that \<open>parseCliOutput\<close> works on, and the test that the joined lines hold one of
  the phrases of \<open>AUTH_PATTERNS\<close>.
\<close>


definition cli_lines :: "ustring \<Rightarrow> ustring list" where
  "cli_lines raw = re_split NEWLINE_RE [] (stripAnsi raw)"

definition hard_auth_phrase :: "ustring \<Rightarrow> bool" where
  "hard_auth_phrase text = (\<exists>pat \<in> set AUTH_PATTERNS. re_test (fst pat) text)"

text \<open>Two transcripts for the scenarios.\<close>

definition both_raw :: ustring where
  "both_raw = ustr ''Current session'' @ [10] @ ustr ''14% used'' @ [10]
     @ ustr ''Your session has expired'' @ [10]"

definition session_raw :: ustring where
  "session_raw = ustr ''Current session'' @ [10] @ ustr ''14% used'' @ [10]
     @ ustr ''Resets 8pm (America/Toronto)''"

text \<open>A raw transcript with escape sequences and control characters.\<close>


definition ansi_raw :: ustring where
  "ansi_raw = [27] @ ustr ''[2CAB'' @ [13, 7, 27] @ ustr ''[31mC'' @ [27, 9, 127]"

text \<open>The cost lines of the example: a header and an amount pair with two thousands separators.\<close>

definition cost_lines :: "ustring list" where
  "cost_lines = [ustr ''Extra usage'', ustr ''$1,234.50 / $2,000,000 spent'']"

text \<open>A string of digits that is not empty.\<close>

definition digits :: "ustring \<Rightarrow> bool" where
  "digits ds = (ds \<noteq> [] \<and> (\<forall>x \<in> set ds. is_digit x))"

text \<open>A section whose percentage phrase is above 100, and the section of the scenario.\<close>

definition over_lines :: "ustring list" where
  "over_lines = [ustr ''Current session'', ustr ''234% used'']"

definition session_lines :: "ustring list" where
  "session_lines =
     [ustr ''Current session'', ustr ''14% used'', ustr ''Resets 8pm (America/Toronto)'']"

definition session_quota :: Quota where
  "session_quota =
     \<lparr>qtype = Session, percent_remaining = 86, resets_at = Some 1771808400000,
      time_remaining_seconds = 12000, time_remaining_human = ustr ''3h20m''\<rparr>"

text \<open>The weekly section of the scenario.\<close>

definition week_lines :: "ustring list" where
  "week_lines =
     [ustr ''Current week (all models)'', ustr ''7% used'',
      ustr ''Resets Feb 27 at 7pm (America/Toronto)'']"

definition weekly_quota :: Quota where
  "weekly_quota =
     \<lparr>qtype = Weekly, percent_remaining = 93, resets_at = Some 1772236800000,
      time_remaining_seconds = 440400, time_remaining_human = ustr ''5d 2h''\<rparr>"


definition clock_of :: "caps \<Rightarrow> int \<times> int" where
  "clock_of m =
     (toHour24 (parseInt (the_default [] (cap m 1))) (the_default [] (cap m 3)),
      (case cap m 2 of Some s \<Rightarrow> parseInt s | None \<Rightarrow> 0))"




text \<open>
  A section with four blank lines between the label line and the percentage line, in the
  two orders of the percentage line and the reset line; and a section with three lines
  of no content, two before the two lines and one between them.
\<close>

definition far_lines :: "ustring list" where
  "far_lines =
     [ustr ''Current session'', [], [], [], [], ustr ''14% used'',
      ustr ''Resets 8pm (America/Toronto)'']"

definition far_lines_swapped :: "ustring list" where
  "far_lines_swapped =
     [ustr ''Current session'', [], [], [], [], ustr ''Resets 8pm (America/Toronto)'',
      ustr ''14% used'']"

text \<open>
  The three patterns of a relative duration have one shape: digits in group 1, white
  space, the letter of the unit, and an optional rest of the word. \<open>nogrp\<close> holds of an
  expression without a capture group.
\<close>

fun nogrp :: "re \<Rightarrow> bool" where
  "nogrp (Atom q) = True"
| "nogrp Eps = True"
| "nogrp (Seq a b) = (nogrp a \<and> nogrp b)"
| "nogrp (Alt a b) = (nogrp a \<and> nogrp b)"
| "nogrp (Opt a) = nogrp a"
| "nogrp (Star a) = nogrp a"
| "nogrp (Grp n a) = False"

definition rel_re :: "char \<Rightarrow> re \<Rightarrow> re" where
  "rel_re l X = Seq (Grp 1 (Plus D)) (Seq (Star S) (Seq (Atom (ci l)) (Opt X)))"

text \<open>
  The relative duration tokens of the specification: a number, white space or none, a
  unit word in any case, abbreviated or spelled out, and the text up to the next token,
  which holds no digit. \<open>amount\<close> is the number of the first token of a unit, 0 when
  there is none; \<open>total\<close> is the duration in seconds.
\<close>

datatype tunit = Days | Hours | Minutes

fun unit_words :: "tunit \<Rightarrow> string list" where
  "unit_words Days = [''d'', ''day'', ''days'']"
| "unit_words Hours = [''h'', ''hr'', ''hour'', ''hours'']"
| "unit_words Minutes = [''m'', ''min'', ''minute'', ''minutes'']"

fun unit_letter :: "tunit \<Rightarrow> char" where
  "unit_letter Days = CHR ''d''"
| "unit_letter Hours = CHR ''h''"
| "unit_letter Minutes = CHR ''m''"

record token =
  tk_unit :: tunit
  tk_digits :: ustring
  tk_gap :: ustring
  tk_word :: ustring
  tk_after :: ustring

definition valid_token :: "token \<Rightarrow> bool" where
  "valid_token t =
     (digits (tk_digits t) \<and> list_all is_space (tk_gap t)
      \<and> toLowerCase (tk_word t) \<in> set (map ustr (unit_words (tk_unit t)))
      \<and> list_all (\<lambda>c. \<not> is_digit c) (tk_after t))"

definition render :: "token \<Rightarrow> ustring" where
  "render t = tk_digits t @ tk_gap t @ tk_word t @ tk_after t"

definition amount :: "tunit \<Rightarrow> token list \<Rightarrow> int" where
  "amount u toks =
     (case find (\<lambda>t. tk_unit t = u) toks of Some t \<Rightarrow> parseInt (tk_digits t) | None \<Rightarrow> 0)"

definition total :: "token list \<Rightarrow> int" where
  "total toks = amount Days toks * 86400 + amount Hours toks * 3600 + amount Minutes toks * 60"

text \<open>The line \<open>"Resets in 2d 5 hours 30 Min"\<close> as a head and three tokens.\<close>

definition rel_head :: ustring where
  "rel_head = ustr ''Resets in ''"

definition rel_toks :: "token list" where
  "rel_toks =
     [\<lparr>tk_unit = Days, tk_digits = ustr ''2'', tk_gap = [], tk_word = ustr ''d'',
       tk_after = ustr '' ''\<rparr>,
      \<lparr>tk_unit = Hours, tk_digits = ustr ''5'', tk_gap = ustr '' '', tk_word = ustr ''hours'',
       tk_after = ustr '' ''\<rparr>,
      \<lparr>tk_unit = Minutes, tk_digits = ustr ''30'', tk_gap = ustr '' '', tk_word = ustr ''Min'',
       tk_after = []\<rparr>]"

section \<open>Evaluating the matcher\<close>

declare ms.simps(7) [simp del]

lemma mss_Nil [code]: "mss r [] = []"
  by (simp add: mss_def)

lemma mss_Cons [code]: "mss r (st # sts) = ms r st @ mss r sts"
  by (simp add: mss_def)

lemma star_Nil [code]: "star a n [] = []"
  by (simp add: star_def)

lemma star_Cons [code]:
  "star a n (st # sts) = (if length (fst st) < n then ms (Star a) st else []) @ star a n sts"
  by (simp add: star_def)

lemma ms_Star: "ms (Star a) st = star a (length (fst st)) (ms a st) @ [st]"
  by (simp add: star_def ms.simps(7))

lemma ms_code [code]:
  "ms (Atom p) ([], c) = []"
  "ms (Atom p) (x # xs, c) = (if p x then [(xs, c)] else [])"
  "ms Eps st = [st]"
  "ms (Seq a b) st = mss b (ms a st)"
  "ms (Alt a b) st = ms a st @ ms b st"
  "ms (Opt a) st = ms a st @ [st]"
  "ms (Star a) st = star a (length (fst st)) (ms a st) @ [st]"
  "ms (Grp n a) st = map (close_grp n (fst st)) (ms a st)"
  by (simp_all add: mss_def star_def ms.simps(7))

lemma Upto_1: "Upto 1 a = Opt (Seq a Eps)"
  by simp

lemma Upto_2: "Upto 2 a = Opt (Seq a (Opt (Seq a Eps)))"
  by (simp add: numeral_2_eq_2)

lemma Upto_6:
  "Upto 6 a = Opt (Seq a (Opt (Seq a (Opt (Seq a (Opt (Seq a (Opt (Seq a (Opt (Seq a Eps)))))))))))"
  by (simp add: eval_nat_numeral)

lemma Rep_2: "Rep 2 a = Seq a (Seq a Eps)"
  by (simp add: numeral_2_eq_2)

lemma Rep_3: "Rep 3 a = Seq a (Seq a (Seq a Eps))"
  by (simp add: numeral_3_eq_3)

lemma Rep_4: "Rep 4 a = Seq a (Seq a (Seq a (Seq a Eps)))"
  by (simp add: eval_nat_numeral)

lemmas re_eval =
  ms_Star star_Nil star_Cons Upto_1 Upto_2 Upto_6 Rep_2 Rep_3 Rep_4 Plus_def
  ustr_def is_digit_def is_space_def is_word_def is_dot_def is_upper_def is_lower_def
  lit_def ci_def close_grp_def cap_def the_default_def group1_def re_match_def re_test_def
  parseInt_def

section \<open>Duration rendering: the rule\<close>

lemma js_rem_nonneg: "0 \<le> a \<Longrightarrow> 0 < b \<Longrightarrow> js_rem a b = a mod b"
  by (cases "a = 0") (simp_all add: js_rem_def)

text \<open>
  C7: for a number of seconds that is not negative, \<open>formatDuration\<close> renders the days,
  with the hours left over when there are any; below a day the hours, with the minutes
  left over when there are any; below an hour the minutes; below a minute the fixed text.
  Every unit is a floored division.
\<close>

theorem formatDuration_rule:
  assumes "0 \<le> n"
  shows "formatDuration n =
    (if 86400 \<le> n then
       (if 3600 \<le> n mod 86400
        then dec (n div 86400) @ ustr ''d '' @ dec (n mod 86400 div 3600) @ ustr ''h''
        else dec (n div 86400) @ ustr ''d'')
     else if 3600 \<le> n then
       (if 60 \<le> n mod 3600
        then dec (n div 3600) @ ustr ''h'' @ dec (n mod 3600 div 60) @ ustr ''m''
        else dec (n div 3600) @ ustr ''h'')
     else if 60 \<le> n then dec (n div 60) @ ustr ''m''
     else ustr ''< 1m'')"
proof -
  have r1: "js_rem n 86400 = n mod 86400" and r2: "js_rem n 3600 = n mod 3600"
    using assms by (simp_all add: js_rem_nonneg)
  have d: "0 < n div 86400 \<longleftrightarrow> 86400 \<le> n"
    using assms by (simp add: pos_imp_zdiv_pos_iff)
  have h: "0 < n mod 86400 div 3600 \<longleftrightarrow> 3600 \<le> n mod 86400"
    by (simp add: pos_imp_zdiv_pos_iff)
  have m: "0 < n mod 3600 div 60 \<longleftrightarrow> 60 \<le> n mod 3600"
    by (simp add: pos_imp_zdiv_pos_iff)
  have h': "0 < n div 3600 \<longleftrightarrow> 3600 \<le> n" and m': "0 < n div 60 \<longleftrightarrow> 60 \<le> n"
    using assms by (simp_all add: pos_imp_zdiv_pos_iff)
  show ?thesis
  proof (cases "86400 \<le> n")
    case True
    then show ?thesis
      by (simp add: formatDuration_def Let_def r1 r2 d h)
  next
    case False
    with assms have s: "n mod 86400 = n" by simp
    show ?thesis
    proof (cases "3600 \<le> n")
      case True
      with False show ?thesis
        by (simp add: formatDuration_def Let_def r1 r2 d h m s h')
    next
      case False
      with assms have s': "n mod 3600 = n" by simp
      from False \<open>\<not> 86400 \<le> n\<close> show ?thesis
        by (simp add: formatDuration_def Let_def r1 r2 d h m s s' h' m')
    qed
  qed
qed

theorem formatDuration_rule_witness:
  "(0::int) \<le> 440400 \<and> formatDuration 440400 = ustr ''5d 2h''
   \<and> formatDuration 12000 = ustr ''3h20m'' \<and> formatDuration 300 = ustr ''5m''
   \<and> formatDuration 59 = ustr ''< 1m''"
  using formatDuration_rule [of 440400] formatDuration_rule [of 12000]
    formatDuration_rule [of 300] formatDuration_rule [of 59]
  by code_simp

section \<open>Status text: order and shape\<close>

lemma scenario_text:
  "formatStatusText scenario_data = ustr ''14% 3h20m | 7% 5d 2h | sonnet 0% 6d 22h''"
  by code_simp

text \<open>
  C8: \<open>formatStatusText\<close> renders the first session, weekly, opus and sonnet record, in
  this order, each as the used percentage (100 minus the remaining one), \<open>%\<close>, a space and
  the remaining time, the opus and sonnet parts after their name, and joins the parts with
  \<open>" | "\<close>; the three records of the scenario give \<open>"14% 3h20m | 7% 5d 2h | sonnet 0% 6d 22h"\<close>.
\<close>

theorem formatStatusText_order:
  "(quotas d = Some qs \<longrightarrow> formatStatusText d = join (ustr '' | '') (status_parts qs))
   \<and> formatStatusText scenario_data = ustr ''14% 3h20m | 7% 5d 2h | sonnet 0% 6d 22h''"
  by (simp add: scenario_text)
    (simp add: formatStatusText_def status_parts_def find_quota_def part_def Let_def
        List.map_filter_simps split: option.splits)

theorem formatStatusText_order_witness:
  "quotas scenario_data = Some scenario_quotas
   \<and> formatStatusText scenario_data = join (ustr '' | '') (status_parts scenario_quotas)
   \<and> status_parts scenario_quotas
       = [ustr ''14% 3h20m'', ustr ''7% 5d 2h'', ustr ''sonnet 0% 6d 22h'']"
proof -
  have q: "quotas scenario_data = Some scenario_quotas"
    by (simp add: scenario_data_def)
  have s: "status_parts scenario_quotas
       = [ustr ''14% 3h20m'', ustr ''7% 5d 2h'', ustr ''sonnet 0% 6d 22h'']"
    by code_simp
  from formatStatusText_order [of scenario_data scenario_quotas] q s show ?thesis
    by simp
qed

section \<open>Outcomes of the entry point\<close>

lemma first_auth_None: "first_auth ps text = None \<longleftrightarrow> (\<forall>pat \<in> set ps. \<not> re_test (fst pat) text)"
  by (induction ps) (auto split: if_splits)

lemma first_auth_Some:
  "first_auth ps text = Some e \<Longrightarrow>
     \<exists>pat \<in> set ps. re_test (fst pat) text \<and> Code e = fst (snd pat) \<and> Message e = snd (snd pat)"
  by (induction ps) (auto split: if_splits)

lemma auth_codes_hard: "\<forall>pat \<in> set AUTH_PATTERNS. fst (snd pat) \<in> set AUTH_ERROR_CODES"
  by (simp add: AUTH_PATTERNS_def AUTH_ERROR_CODES_def)

lemma detectAuthError_None: "detectAuthError lines = None \<longleftrightarrow> \<not> hard_auth_phrase (join [10] lines)"
  by (simp add: detectAuthError_def first_auth_None hard_auth_phrase_def)

text \<open>
  C2: when the joined lines hold a phrase of the table of authentication failures,
  \<open>parseCliOutput\<close> returns the outcome \<open>not_authenticated\<close> with the message of a row of
  the table, whatever else the text holds (quota lines too: they are not read).
\<close>

theorem auth_precedence:
  assumes "hard_auth_phrase (join [10] (cli_lines raw))"
  shows "\<exists>pat \<in> set AUTH_PATTERNS. parseCliOutput p raw = Inr (NotAuthenticated (snd (snd pat)))"
proof -
  from assms obtain e where e: "detectAuthError (cli_lines raw) = Some e"
    using detectAuthError_None by (cases "detectAuthError (cli_lines raw)") auto
  then obtain pat where pat: "pat \<in> set AUTH_PATTERNS" "Code e = fst (snd pat)"
      "Message e = snd (snd pat)"
    unfolding detectAuthError_def using first_auth_Some by blast
  with auth_codes_hard have "Code e \<in> set AUTH_ERROR_CODES" by simp
  with e have "parseCliOutput p raw = Inr (NotAuthenticated (Message e))"
    by (simp add: parseCliOutput_def cli_lines_def Let_def)
  with pat show ?thesis by auto
qed

lemma both_lines: "cli_lines both_raw = [ustr ''Current session'', ustr ''14% used'', ustr ''Your session has expired'', []]"
  by code_simp

lemma hard_auth_phrase_code [code]: "hard_auth_phrase text = list_ex (\<lambda>pat. re_test (fst pat) text) AUTH_PATTERNS"
  by (simp add: hard_auth_phrase_def list_ex_iff)

theorem auth_precedence_witness:
  "hard_auth_phrase (join [10] (cli_lines both_raw))
   \<and> parseQuotas test_host (cli_lines both_raw) \<noteq> Inr []
   \<and> parseCliOutput test_host both_raw
       = Inr (NotAuthenticated (ustr ''Claude authentication token expired. Run 'claude' to re-authenticate.''))"
proof -
  have h: "hard_auth_phrase (join [10] (cli_lines both_raw))"
    by code_simp
  have q: "parseQuotas test_host (cli_lines both_raw) \<noteq> Inr []"
    by code_simp
  have r: "parseCliOutput test_host both_raw
       = Inr (NotAuthenticated (ustr ''Claude authentication token expired. Run 'claude' to re-authenticate.''))"
    by code_simp
  from auth_precedence [OF h, of test_host] h q r show ?thesis
    by simp
qed

text \<open>
  C3: when the joined lines hold no phrase of the table of authentication failures, the
  outcome of \<open>parseCliOutput\<close> is \<open>ok\<close> exactly when \<open>parseQuotas\<close> returns at least one
  record, and then with these records; with no record the outcome is the error
  \<open>"No quota data found"\<close>; an \<open>ok\<close> outcome never holds an empty list of records. An
  exception of \<open>parseQuotas\<close> leaves \<open>parseCliOutput\<close> as it is.
\<close>

theorem ok_iff_quotas:
  assumes "\<not> hard_auth_phrase (join [10] (cli_lines raw))"
  shows "(\<forall>qs. parseQuotas p (cli_lines raw) = Inr qs \<and> qs \<noteq> [] \<longrightarrow>
            (\<exists>d. parseCliOutput p raw = Inr (Ok d) \<and> quotas d = Some qs))
       \<and> (parseQuotas p (cli_lines raw) = Inr [] \<longrightarrow>
            parseCliOutput p raw = Inr (Error (ustr ''No quota data found in claude /usage output.'')))
       \<and> (\<forall>e. parseQuotas p (cli_lines raw) = Inl e \<longrightarrow> parseCliOutput p raw = Inl e)
       \<and> (\<forall>d. parseCliOutput p raw = Inr (Ok d) \<longrightarrow>
            (\<exists>qs. quotas d = Some qs \<and> qs \<noteq> [] \<and> parseQuotas p (cli_lines raw) = Inr qs))"
proof -
  from assms have a: "detectAuthError (cli_lines raw) = None"
    by (simp add: detectAuthError_None)
  show ?thesis
    by (cases "parseQuotas p (cli_lines raw)")
      (auto simp: parseCliOutput_def Let_def a cli_lines_def [symmetric])
qed

theorem ok_iff_quotas_witness:
  "\<not> hard_auth_phrase (join [10] (cli_lines session_raw))
   \<and> (\<exists>d. parseCliOutput test_host session_raw = Inr (Ok d) \<and> quotas d = Some [\<lparr>qtype = Session, percent_remaining = 86, resets_at = Some 1771808400000,
       time_remaining_seconds = 12000, time_remaining_human = ustr ''3h20m''\<rparr>])
   \<and> \<not> hard_auth_phrase (join [10] (cli_lines (ustr ''hello'')))
   \<and> parseCliOutput test_host (ustr ''hello'') = Inr (Error (ustr ''No quota data found in claude /usage output.''))"
proof -
  have h: "\<not> hard_auth_phrase (join [10] (cli_lines session_raw))"
    by code_simp
  have q: "parseQuotas test_host (cli_lines session_raw) = Inr [\<lparr>qtype = Session, percent_remaining = 86, resets_at = Some 1771808400000,
       time_remaining_seconds = 12000, time_remaining_human = ustr ''3h20m''\<rparr>]"
    by code_simp
  have h': "\<not> hard_auth_phrase (join [10] (cli_lines (ustr ''hello'')))"
    by code_simp
  have q': "parseQuotas test_host (cli_lines (ustr ''hello'')) = Inr []"
    by code_simp
  from ok_iff_quotas [OF h, of test_host] ok_iff_quotas [OF h', of test_host] h q h' q' show ?thesis
    by simp
qed

section \<open>The normalizer is idempotent\<close>

lemma re_replace_Atom_del: "re_replace (Atom q) (\<lambda>_. []) s = filter (\<lambda>c. \<not> q c) s"
  by (induction s) simp_all

lemma re_replace_Atom_map: "re_replace (Atom q) (\<lambda>_. [y]) s = map (\<lambda>c. if q c then y else c) s"
  by (induction s) simp_all

lemma re_replace_no_start:
  "\<forall>c \<in> set s. \<not> q c \<Longrightarrow> re_replace (Seq (Atom q) r) f s = s"
  by (induction s) simp_all

lemma stripAnsi_filter:
  "stripAnsi s = filter (\<lambda>c. \<not> is_ctrl c) (map (\<lambda>c. if c = 13 then 10 else c)
     (re_replace ANSI_RE (\<lambda>_. []) (re_replace CURSOR_FWD_RE cursor_spaces s)))"
  by (simp add: stripAnsi_def Let_def CR_RE_def CTRL_RE_def re_replace_Atom_del re_replace_Atom_map)

lemma stripAnsi_chars: "c \<in> set (stripAnsi s) \<Longrightarrow> \<not> is_ctrl c \<and> c \<noteq> 13"
  by (auto simp: stripAnsi_filter)

lemma stripAnsi_clean:
  assumes "\<forall>c \<in> set t. \<not> is_ctrl c \<and> c \<noteq> 13"
  shows "stripAnsi t = t"
proof -
  from assms have esc: "\<forall>c \<in> set t. \<not> c = 27"
    by (auto simp: is_ctrl_def)
  have 1: "re_replace CURSOR_FWD_RE cursor_spaces t = t"
    unfolding CURSOR_FWD_RE_def Seqs.simps by (rule re_replace_no_start [OF esc])
  have 2: "re_replace ANSI_RE (\<lambda>_. []) t = t"
    unfolding ANSI_RE_def by (rule re_replace_no_start [OF esc])
  have 3: "map (\<lambda>c. if c = 13 then 10 else c) t = t"
    using assms by (induction t) auto
  have 4: "filter (\<lambda>c. \<not> is_ctrl c) t = t"
    using assms by (induction t) auto
  show ?thesis
    by (simp add: stripAnsi_filter 1 2 3 4)
qed

text \<open>
  C10: \<open>stripAnsi\<close> is idempotent, because its result holds no escape character, no
  carriage return and no code unit below 32 other than the tab and the newline (the
  characters that the last replacement removes are those of the ranges 0 to 8, 11, 12
  and 14 to 31; the character 127 stays).
\<close>

theorem stripAnsi_idempotent:
  "stripAnsi (stripAnsi s) = stripAnsi s
   \<and> (\<forall>c \<in> set (stripAnsi s). c \<noteq> 27 \<and> c \<noteq> 13 \<and> (c < 32 \<longrightarrow> c = 9 \<or> c = 10))"
proof
  show "stripAnsi (stripAnsi s) = stripAnsi s"
    by (rule stripAnsi_clean) (simp add: stripAnsi_chars)
  show "\<forall>c \<in> set (stripAnsi s). c \<noteq> 27 \<and> c \<noteq> 13 \<and> (c < 32 \<longrightarrow> c = 9 \<or> c = 10)"
  proof
    fix c assume "c \<in> set (stripAnsi s)"
    then have "\<not> is_ctrl c \<and> c \<noteq> 13" by (rule stripAnsi_chars)
    then show "c \<noteq> 27 \<and> c \<noteq> 13 \<and> (c < 32 \<longrightarrow> c = 9 \<or> c = 10)"
      by (auto simp: is_ctrl_def)
  qed
qed

theorem stripAnsi_idempotent_witness:
  "stripAnsi ansi_raw = ustr ''  AB'' @ [10] @ ustr ''C'' @ [9, 127]
   \<and> stripAnsi (stripAnsi ansi_raw) = stripAnsi ansi_raw
   \<and> 27 \<notin> set (stripAnsi ansi_raw) \<and> 13 \<notin> set (stripAnsi ansi_raw)"
proof -
  have v: "stripAnsi ansi_raw = ustr ''  AB'' @ [10] @ ustr ''C'' @ [9, 127]"
    by code_simp
  from stripAnsi_idempotent [of ansi_raw] v show ?thesis
    by blast
qed

section \<open>Cost usage: the thousands separators\<close>

lemma parseCostUsage_absent:
  "\<forall>l \<in> set lines. \<not> re_test COST_SECTION_RE l \<Longrightarrow>
     parseCostUsage lines = \<lparr>spent = Fin 0, budget = Fin 0\<rparr>"
  by (induction lines) simp_all

lemma cost_one_comma:
  "parseCostUsage [ustr ''Extra usage'', ustr ''$1,234.50 / $2,000 spent'']
     = \<lparr>spent = Fin (2469 / 2), budget = Fin 2000\<rparr>"
  by code_simp

text \<open>
  C9, at the example of the claim: after the header \<open>"Extra usage"\<close>, the pair
  \<open>"$1,234.50 / $2,000,000 spent"\<close> gives the amount spent 1234.5 and the budget 2000,
  where the claim says 2000000: \<open>replace(",", "")\<close> removes the first comma of an
  amount only, and \<open>parseFloat\<close> stops at the second.
\<close>

theorem cost_second_comma_kept:
  "parseCostUsage cost_lines = \<lparr>spent = Fin (2469 / 2), budget = Fin 2000\<rparr>"
  by code_simp

section \<open>Reasoning about the matcher\<close>

lemma in_ms_Atom: "(s', c') \<in> set (ms (Atom q) (s, c)) \<longleftrightarrow> (\<exists>x. s = x # s' \<and> q x \<and> c' = c)"
  by (cases s) auto

lemma in_ms_Seq: "st' \<in> set (ms (Seq a b) st) \<longleftrightarrow> (\<exists>m \<in> set (ms a st). st' \<in> set (ms b m))"
  by auto

lemma in_ms_Alt: "st' \<in> set (ms (Alt a b) st) \<longleftrightarrow> st' \<in> set (ms a st) \<or> st' \<in> set (ms b st)"
  by simp

lemma in_ms_Opt: "st' \<in> set (ms (Opt a) st) \<longleftrightarrow> st' \<in> set (ms a st) \<or> st' = st"
  by auto

lemma in_ms_Eps: "st' \<in> set (ms Eps st) \<longleftrightarrow> st' = st"
  by auto

lemma in_ms_Grp: "st' \<in> set (ms (Grp n a) st) \<longleftrightarrow> (\<exists>m \<in> set (ms a st). st' = close_grp n (fst st) m)"
  by auto

lemma in_ms_Star: "st' \<in> set (ms (Star a) st) \<longleftrightarrow>
    st' = st \<or> (\<exists>m \<in> set (ms a st). length (fst m) < length (fst st) \<and> st' \<in> set (ms (Star a) m))"
  by (subst ms.simps(7)) (auto split: if_splits)

lemma ms_suffix: "st' \<in> set (ms r st) \<Longrightarrow> \<exists>u. fst st = u @ fst st'"
proof (induction r st arbitrary: st' rule: ms.induct)
  case (1 p c)
  then show ?case by (simp only: ms.simps(1) list.set empty_iff)
next
  case (2 p x xs c)
  obtain s' c' where st': "st' = (s', c')" by (cases st')
  from "2.prems" st' have "s' = xs" by (simp only: in_ms_Atom) blast
  with st' have "fst (x # xs, c) = [x] @ fst st'" by simp
  then show ?case by blast
next
  case (3 st)
  then have "st' = st" by (simp only: in_ms_Eps)
  then show ?case by simp
next
  case (4 a b st)
  from "4.prems" obtain m where m: "m \<in> set (ms a st)" "st' \<in> set (ms b m)"
    by (simp only: in_ms_Seq) blast
  from "4.IH"(1) [OF m(1)] obtain u where u: "fst st = u @ fst m" by blast
  from "4.IH"(2) [OF m(1) m(2)] obtain v where "fst m = v @ fst st'" by blast
  with u have "fst st = (u @ v) @ fst st'" by simp
  then show ?case by blast
next
  case (5 a b st)
  from "5.prems" have "st' \<in> set (ms a st) \<or> st' \<in> set (ms b st)"
    by (simp only: in_ms_Alt)
  then show ?case using "5.IH" by blast
next
  case (6 a st)
  from "6.prems" have "st' \<in> set (ms a st) \<or> st' = st"
    by (simp only: in_ms_Opt)
  then show ?case
  proof
    assume "st' \<in> set (ms a st)"
    from "6.IH" [OF this] show ?thesis .
  next
    assume "st' = st" then show ?thesis by simp
  qed
next
  case (7 a st)
  from "7.prems" in_ms_Star [of st' a st]
  have "st' = st \<or> (\<exists>m \<in> set (ms a st). length (fst m) < length (fst st) \<and> st' \<in> set (ms (Star a) m))"
    by blast
  then show ?case
  proof
    assume "st' = st" then show ?thesis by simp
  next
    assume "\<exists>m \<in> set (ms a st). length (fst m) < length (fst st) \<and> st' \<in> set (ms (Star a) m)"
    then obtain m where m: "m \<in> set (ms a st)" "length (fst m) < length (fst st)" "st' \<in> set (ms (Star a) m)"
      by blast
    from "7.IH"(1) [OF m(1)] obtain u where u: "fst st = u @ fst m" by blast
    from "7.IH"(2) [OF m(1) m(2) m(3)] obtain v where "fst m = v @ fst st'" by blast
    with u have "fst st = (u @ v) @ fst st'" by simp
    then show ?thesis by blast
  qed
next
  case (8 n a st)
  from "8.prems" obtain m where m: "m \<in> set (ms a st)" "st' = close_grp n (fst st) m"
    by (simp only: in_ms_Grp) blast
  from "8.IH" [OF m(1)] m(2) show ?case by (simp add: close_grp_def)
qed

lemma ms_Star_Atom:
  "(s', c') \<in> set (ms (Star (Atom q)) (s, c)) \<Longrightarrow> c' = c \<and> (\<exists>ws. s = ws @ s' \<and> (\<forall>x \<in> set ws. q x))"
proof (induction s arbitrary: s' c')
  case Nil
  from Nil in_ms_Star [of "(s', c')" "Atom q" "([], c)"] show ?case by simp
next
  case (Cons x xs)
  from Cons.prems in_ms_Star [of "(s', c')" "Atom q" "(x # xs, c)"]
  have "(s', c') = (x # xs, c) \<or> (q x \<and> (s', c') \<in> set (ms (Star (Atom q)) (xs, c)))"
    by (auto split: if_splits)
  then show ?case
  proof
    assume "(s', c') = (x # xs, c)"
    then show ?thesis by simp
  next
    assume a: "q x \<and> (s', c') \<in> set (ms (Star (Atom q)) (xs, c))"
    with Cons.IH obtain ws where "c' = c" "xs = ws @ s'" "\<forall>x \<in> set ws. q x" by blast
    with a have "x # xs = (x # ws) @ s' \<and> (\<forall>y \<in> set (x # ws). q y)" by simp
    with \<open>c' = c\<close> show ?thesis by blast
  qed
qed

lemma exec_from_ms:
  "exec_from r pre s = Some (a, b, c) \<Longrightarrow> \<exists>t u. s = u @ t \<and> (b, c) \<in> set (ms r (t, []))"
proof (induction s arbitrary: pre)
  case Nil
  then have "(b, c) \<in> set (ms r ([], []))" by (cases "ms r ([], [])") auto
  then show ?case by simp
next
  case (Cons x xs)
  show ?case
  proof (cases "ms r (x # xs, [])")
    case Nil
    with Cons.prems have "exec_from r (x # pre) xs = Some (a, b, c)" by simp
    from Cons.IH [OF this] obtain t u where "xs = u @ t" "(b, c) \<in> set (ms r (t, []))" by blast
    then have "x # xs = (x # u) @ t \<and> (b, c) \<in> set (ms r (t, []))" by simp
    then show ?thesis by blast
  next
    case (Cons st sts)
    with Cons.prems have "(b, c) \<in> set (ms r (x # xs, []))" by auto
    then have "x # xs = [] @ (x # xs) \<and> (b, c) \<in> set (ms r (x # xs, []))" by simp
    then show ?thesis by blast
  qed
qed

lemma re_match_ms:
  assumes "re_match r s = Some m"
  shows "\<exists>t u s'. s = u @ t \<and> (s', m) \<in> set (ms r (t, []))"
proof -
  from assms obtain a b where "exec_from r [] s = Some (a, b, m)"
    by (auto simp: re_match_def)
  from exec_from_ms [OF this] show ?thesis by blast
qed

lemma re_test_match: "re_test r s \<longleftrightarrow> re_match r s \<noteq> None"
  by (simp add: re_test_def re_match_def)

lemma ci_lower:
  assumes "ci l x" "is_lower (of_char l)"
  shows "(if is_upper x then x + 32 else x) = of_char l"
  using assms by (auto simp: ci_def Let_def is_lower_def is_upper_def)

lemma in_ms_Lits_Cons:
  "(s', c') \<in> set (ms (Lits f (x # xs)) (s, c)) \<longleftrightarrow>
     (\<exists>y s1. s = y # s1 \<and> f x y \<and> (s', c') \<in> set (ms (Lits f xs) (s1, c)))"
proof (cases xs)
  case Nil
  then show ?thesis by (auto simp: in_ms_Atom in_ms_Eps)
next
  case (Cons z zs)
  then show ?thesis by (auto simp: in_ms_Seq in_ms_Atom)
qed

lemma ms_Lits_ci:
  assumes "(s', c') \<in> set (ms (Lits ci w) (s, c))" "\<forall>l \<in> set w. is_lower (of_char l)"
  shows "c' = c \<and> (\<exists>u. s = u @ s' \<and> toLowerCase u = ustr w)"
  using assms
proof (induction w arbitrary: s)
  case Nil
  then show ?case by (simp add: in_ms_Eps toLowerCase_def ustr_def)
next
  case (Cons x xs)
  from Cons.prems(1) obtain y s1 where y: "s = y # s1" "ci x y"
      "(s', c') \<in> set (ms (Lits ci xs) (s1, c))"
    unfolding in_ms_Lits_Cons by blast
  from Cons.IH [OF y(3)] Cons.prems(2) obtain u where u: "c' = c" "s1 = u @ s'"
      "toLowerCase u = ustr xs"
    by auto
  from y(2) Cons.prems(2) have "toLowerCase [y] = ustr [x]"
    by (simp add: toLowerCase_def ustr_def ci_lower)
  with u(3) have "toLowerCase (y # u) = ustr (x # xs)"
    by (simp add: toLowerCase_def ustr_def)
  with y(1) u(1,2) have "c' = c \<and> s = (y # u) @ s' \<and> toLowerCase (y # u) = ustr (x # xs)"
    by simp
  then show ?case by blast
qed

lemma ms_digits_upto2:
  assumes "(s', c') \<in> set (ms (Seq D (Upto 2 D)) (s, c))"
  shows "c' = c \<and> (\<exists>ds. s = ds @ s' \<and> digits ds \<and> length ds \<le> 3)"
proof -
  from assms obtain x s1 where x: "s = x # s1" "is_digit x"
      "(s', c') \<in> set (ms (Opt (Seq D (Opt (Seq D Eps)))) (s1, c))"
    by (auto simp: Upto_2 in_ms_Seq in_ms_Atom)
  from x(3) have "(s', c') = (s1, c) \<or> (s', c') \<in> set (ms (Seq D (Opt (Seq D Eps))) (s1, c))"
    by (auto simp only: in_ms_Opt)
  then show ?thesis
  proof
    assume "(s', c') = (s1, c)"
    with x have "c' = c \<and> s = [x] @ s' \<and> digits [x] \<and> length [x] \<le> 3"
      by (simp add: digits_def)
    then show ?thesis by blast
  next
    assume "(s', c') \<in> set (ms (Seq D (Opt (Seq D Eps))) (s1, c))"
    then obtain y s2 where y: "s1 = y # s2" "is_digit y"
        "(s', c') \<in> set (ms (Opt (Seq D Eps)) (s2, c))"
      by (auto simp: in_ms_Seq in_ms_Atom)
    from y(3) have "(s', c') = (s2, c) \<or> (s', c') \<in> set (ms (Seq D Eps) (s2, c))"
      by (auto simp only: in_ms_Opt)
    then show ?thesis
    proof
      assume "(s', c') = (s2, c)"
      with x y have "c' = c \<and> s = [x, y] @ s' \<and> digits [x, y] \<and> length [x, y] \<le> 3"
        by (simp add: digits_def)
      then show ?thesis by blast
    next
      assume "(s', c') \<in> set (ms (Seq D Eps) (s2, c))"
      then obtain z where "s2 = z # s'" "is_digit z" "c' = c"
        by (auto simp: in_ms_Seq in_ms_Atom in_ms_Eps)
      with x y have "c' = c \<and> s = [x, y, z] @ s' \<and> digits [x, y, z] \<and> length [x, y, z] \<le> 3"
        by (simp add: digits_def)
      then show ?thesis by blast
    qed
  qed
qed

lemma in_ms_Grp_cap:
  "(s', c') \<in> set (ms (Grp n a) (s, c)) \<longleftrightarrow>
     (\<exists>u c0. (s', c0) \<in> set (ms a (s, c)) \<and> s = u @ s' \<and> c' = (n, u) # c0)"
proof
  assume "(s', c') \<in> set (ms (Grp n a) (s, c))"
  then obtain m where m: "m \<in> set (ms a (s, c))" "(s', c') = close_grp n s m"
    by (auto simp: in_ms_Grp)
  from ms_suffix [OF m(1)] obtain u where u: "s = u @ fst m" by auto
  with m(2) have "(s', snd m) = m \<and> s = u @ s' \<and> c' = (n, u) # snd m"
    by (simp add: close_grp_def)
  with m(1) show "\<exists>u c0. (s', c0) \<in> set (ms a (s, c)) \<and> s = u @ s' \<and> c' = (n, u) # c0"
    by metis
next
  assume "\<exists>u c0. (s', c0) \<in> set (ms a (s, c)) \<and> s = u @ s' \<and> c' = (n, u) # c0"
  then obtain u c0 where "(s', c0) \<in> set (ms a (s, c))" "s = u @ s'" "c' = (n, u) # c0"
    by blast
  then show "(s', c') \<in> set (ms (Grp n a) (s, c))"
    by (force simp: in_ms_Grp close_grp_def)
qed

lemma parseInt_snoc: "parseInt (ds @ [x]) = 10 * parseInt ds + (int x - 48)"
  by (simp add: parseInt_def)

lemma parseInt_bounds:
  "\<forall>x \<in> set ds. is_digit x \<Longrightarrow> 0 \<le> parseInt ds \<and> parseInt ds < 10 ^ length ds"
proof (induction ds rule: rev_induct)
  case Nil
  then show ?case by (simp add: parseInt_def)
next
  case (snoc x xs)
  then have "0 \<le> parseInt xs \<and> parseInt xs < 10 ^ length xs" by simp
  moreover from snoc.prems have "48 \<le> x \<and> x \<le> 57" by (simp add: is_digit_def)
  ultimately show ?case by (simp add: parseInt_snoc)
qed

lemma parseInt_upto3:
  assumes "digits ds" "length ds \<le> 3"
  shows "0 \<le> parseInt ds \<and> parseInt ds \<le> 999"
proof -
  from assms(1) have b: "0 \<le> parseInt ds \<and> parseInt ds < 10 ^ length ds"
    by (simp add: parseInt_bounds digits_def)
  from assms(2) have "(10::int) ^ length ds \<le> 10 ^ 3"
    by (intro power_increasing) simp_all
  with b show ?thesis by simp
qed

lemma percent_caps_ms:
  assumes "(s', m) \<in> set (ms PERCENT_RE (t, []))"
  shows "\<exists>ds w. m = [(2, w), (1, ds)] \<and> digits ds \<and> length ds \<le> 3
           \<and> (toLowerCase w = ustr ''used'' \<or> toLowerCase w = ustr ''left'')"
proof -
  from assms obtain s1 c1 s2 c2 s3 c3 s4 c4 where
      1: "(s1, c1) \<in> set (ms (Grp 1 (Seq D (Upto 2 D))) (t, []))"
    and 2: "(s2, c2) \<in> set (ms (Star S) (s1, c1))"
    and 3: "(s3, c3) \<in> set (ms (W ''%'') (s2, c2))"
    and 4: "(s4, c4) \<in> set (ms (Star S) (s3, c3))"
    and 5: "(s', m) \<in> set (ms (Grp 2 (Alt (W ''used'') (W ''left''))) (s4, c4))"
    unfolding PERCENT_RE_def Seqs.simps in_ms_Seq by fast
  from 1 obtain ds where ds: "c1 = [(1, ds)]" "digits ds" "length ds \<le> 3"
    unfolding in_ms_Grp_cap using ms_digits_upto2 by fastforce
  from 2 have c2: "c2 = c1" using ms_Star_Atom by blast
  from 3 have c3: "c3 = c2" by (auto simp: in_ms_Atom)
  from 4 have c4: "c4 = c3" using ms_Star_Atom by blast
  from 5 obtain w c0 where w: "m = (2, w) # c0" "s4 = w @ s'"
      "(s', c0) \<in> set (ms (Alt (W ''used'') (W ''left'')) (s4, c4))"
    unfolding in_ms_Grp_cap by blast
  from w(3) have "(s', c0) \<in> set (ms (W ''used'') (s4, c4)) \<or> (s', c0) \<in> set (ms (W ''left'') (s4, c4))"
    by (simp only: in_ms_Alt)
  then have "c0 = c4 \<and> (\<exists>u. s4 = u @ s' \<and> (toLowerCase u = ustr ''used'' \<or> toLowerCase u = ustr ''left''))"
  proof
    assume "(s', c0) \<in> set (ms (W ''used'') (s4, c4))"
    from ms_Lits_ci [OF this] show ?thesis by (auto simp: is_lower_def)
  next
    assume "(s', c0) \<in> set (ms (W ''left'') (s4, c4))"
    from ms_Lits_ci [OF this] show ?thesis by (auto simp: is_lower_def)
  qed
  with w(2) have "c0 = c4 \<and> (toLowerCase w = ustr ''used'' \<or> toLowerCase w = ustr ''left'')"
    by auto
  with w(1) ds c2 c3 c4 show ?thesis by simp
qed

lemma percent_caps:
  assumes "re_match PERCENT_RE l = Some m"
  shows "\<exists>ds w. cap m 1 = Some ds \<and> cap m 2 = Some w \<and> digits ds \<and> length ds \<le> 3
           \<and> (toLowerCase w = ustr ''used'' \<or> toLowerCase w = ustr ''left'')"
proof -
  from re_match_ms [OF assms] obtain t s' where "(s', m) \<in> set (ms PERCENT_RE (t, []))"
    by blast
  from percent_caps_ms [OF this] show ?thesis
    by (auto simp: cap_def)
qed

section \<open>The percentage of a record\<close>

lemma first_percent_Some:
  "first_percent ls = Some km \<Longrightarrow> \<exists>l \<in> set ls. re_match PERCENT_RE l = Some (snd km)"
proof (induction ls arbitrary: km)
  case Nil
  then show ?case by simp
next
  case (Cons l ls)
  show ?case
  proof (cases "re_match PERCENT_RE l")
    case (Some m)
    with Cons.prems show ?thesis by auto
  next
    case None
    with Cons.prems obtain km' where "first_percent ls = Some km'" "snd km = snd km'"
      by (auto split: option.splits)
    with Cons.IH show ?thesis by auto
  qed
qed

lemma parseQuotas_percent:
  "parseQuotas p lines = Inr qs \<Longrightarrow> q \<in> set qs \<Longrightarrow>
     \<exists>l \<in> set lines. \<exists>m. re_match PERCENT_RE l = Some m \<and> percent_remaining q = percentRemaining m"
proof (induction p lines arbitrary: qs rule: parseQuotas.induct)
  case (1 p)
  then show ?case by simp
next
  case (2 p l rest)
  show ?case
  proof (cases "find_label QUOTA_LABELS l")
    case None
    with "2.prems" have "parseQuotas p rest = Inr qs" by simp
    from "2.IH"(1) [OF None this "2.prems"(2)] show ?thesis by auto
  next
    case (Some ty)
    show ?thesis
    proof (cases "first_percent (take (min 6 (sectionLength rest)) (l # rest))")
      case None
      with Some "2.prems" have "parseQuotas p rest = Inr qs" by (simp add: Let_def)
      from "2.IH"(2) [OF Some refl refl None this "2.prems"(2)] show ?thesis by auto
    next
      case jm: (Some jm)
      from first_percent_Some [OF jm] obtain l' where l':
          "l' \<in> set (l # rest)" "re_match PERCENT_RE l' = Some (snd jm)"
        by (meson in_set_takeD)
      from "2.prems"(1) Some jm obtain info where info:
          "parseResetTime p (take (sectionLength rest) (l # rest)) = Inr info"
        by (auto simp: Let_def split: sum.splits)
      from "2.prems"(1) Some jm info obtain qs' where qs':
          "parseQuotas p (drop (fst jm) rest) = Inr qs'"
          "qs = \<lparr>qtype = ty, percent_remaining = percentRemaining (snd jm),
                   resets_at = fst info, time_remaining_seconds = fst (snd info),
                   time_remaining_human = snd (snd info)\<rparr> # qs'"
        by (auto simp: Let_def split: sum.splits)
      from "2.prems"(2) qs'(2) have "percent_remaining q = percentRemaining (snd jm) \<or> q \<in> set qs'"
        by auto
      then show ?thesis
      proof
        assume "percent_remaining q = percentRemaining (snd jm)"
        with l' show ?thesis by blast
      next
        assume "q \<in> set qs'"
        from "2.IH"(3) [OF Some refl refl jm info qs'(1) this]
        obtain l'' m where "l'' \<in> set (drop (fst jm) rest)" "re_match PERCENT_RE l'' = Some m"
            "percent_remaining q = percentRemaining m"
          by blast
        then show ?thesis by (meson in_set_dropD list.set_intros(2))
      qed
    qed
  qed
qed

text \<open>
  C6, as the program has it: the percentage of every record that \<open>parseQuotas\<close> returns
  comes from a line that matches the percentage pattern; with \<open>v\<close> the number of its one
  to three digits (0 to 999), it is \<open>100 - v\<close> when the phrase says "used" and \<open>v\<close> when it
  says "left", so it lies between -899 and 999, and between 0 and 100 when \<open>v\<close> is at
  most 100.
\<close>

theorem percent_remaining_derivation:
  assumes "parseQuotas p lines = Inr qs" "q \<in> set qs"
  shows "\<exists>l \<in> set lines. \<exists>m ds w.
           re_match PERCENT_RE l = Some m \<and> cap m 1 = Some ds \<and> cap m 2 = Some w
           \<and> digits ds \<and> length ds \<le> 3 \<and> 0 \<le> parseInt ds \<and> parseInt ds \<le> 999
           \<and> (toLowerCase w = ustr ''used'' \<and> percent_remaining q = 100 - parseInt ds
              \<or> toLowerCase w = ustr ''left'' \<and> percent_remaining q = parseInt ds)
           \<and> - 899 \<le> percent_remaining q \<and> percent_remaining q \<le> 999
           \<and> (parseInt ds \<le> 100 \<longrightarrow> 0 \<le> percent_remaining q \<and> percent_remaining q \<le> 100)"
proof -
  from parseQuotas_percent [OF assms] obtain l m where lm: "l \<in> set lines"
      "re_match PERCENT_RE l = Some m" "percent_remaining q = percentRemaining m"
    by blast
  from percent_caps [OF lm(2)] obtain ds w where c: "cap m 1 = Some ds" "cap m 2 = Some w"
      "digits ds" "length ds \<le> 3"
      "toLowerCase w = ustr ''used'' \<or> toLowerCase w = ustr ''left''"
    by blast
  from parseInt_upto3 [OF c(3,4)] have b: "0 \<le> parseInt ds \<and> parseInt ds \<le> 999" .
  have ne: "ustr ''left'' \<noteq> ustr ''used''" by (simp add: ustr_def)
  from c(5) have "toLowerCase w = ustr ''used'' \<and> percent_remaining q = 100 - parseInt ds
      \<or> toLowerCase w = ustr ''left'' \<and> percent_remaining q = parseInt ds"
    using lm(3) c(1,2) ne by (auto simp: percentRemaining_def the_default_def Let_def)
  with b have "re_match PERCENT_RE l = Some m \<and> cap m 1 = Some ds \<and> cap m 2 = Some w
           \<and> digits ds \<and> length ds \<le> 3 \<and> 0 \<le> parseInt ds \<and> parseInt ds \<le> 999
           \<and> (toLowerCase w = ustr ''used'' \<and> percent_remaining q = 100 - parseInt ds
              \<or> toLowerCase w = ustr ''left'' \<and> percent_remaining q = parseInt ds)
           \<and> - 899 \<le> percent_remaining q \<and> percent_remaining q \<le> 999
           \<and> (parseInt ds \<le> 100 \<longrightarrow> 0 \<le> percent_remaining q \<and> percent_remaining q \<le> 100)"
    using lm(2) c by auto
  with lm(1) show ?thesis by blast
qed

theorem percent_remaining_derivation_witness:
  "parseQuotas test_host session_lines = Inr [session_quota]
   \<and> session_quota \<in> set [session_quota]
   \<and> percent_remaining session_quota = 86
   \<and> - 899 \<le> percent_remaining session_quota \<and> percent_remaining session_quota \<le> 999"
proof -
  have e: "parseQuotas test_host session_lines = Inr [session_quota]"
    by code_simp
  have i: "session_quota \<in> set [session_quota]"
    by simp
  have v: "percent_remaining session_quota = 86"
    by (simp add: session_quota_def)
  from percent_remaining_derivation [OF e i] e i v show ?thesis
    by blast
qed

text \<open>
  C6, as the claim states it, fails: the section \<open>"Current session"\<close>, \<open>"234% used"\<close> gives a
  record whose percentage is -134.
\<close>

theorem percent_remaining_below_zero:
  "parseQuotas test_host over_lines =
     Inr [\<lparr>qtype = Session, percent_remaining = - 134, resets_at = None,
           time_remaining_seconds = 0, time_remaining_human = []\<rparr>]"
  by code_simp

section \<open>The order of the lines of a section\<close>

lemma firstPass_skip: "\<not> re_test RESET_WORD_RE l \<Longrightarrow> firstPass p (l # ls) = firstPass p ls"
  by simp

lemma secondPass_skip: "re_test PERCENT_RE l \<Longrightarrow> secondPass p (l # ls) = secondPass p ls"
  by simp

lemma takeWhile_stop: "\<not> f y \<Longrightarrow> takeWhile f (xs @ y # ys) = takeWhile f xs"
  by (induction xs) simp_all

lemma find_label_boundary: "find_label QUOTA_LABELS l = Some ty \<Longrightarrow> is_boundary l"
  by (simp add: is_boundary_def)

lemma not_boundary_label: "\<not> is_boundary l \<Longrightarrow> find_label QUOTA_LABELS l = None"
  by (simp add: is_boundary_def)

lemma parseQuotas_skip: "\<not> is_boundary l \<Longrightarrow> parseQuotas p (l # ls) = parseQuotas p ls"
  by (simp add: not_boundary_label)

lemma first_percent_index: "first_percent ls = Some km \<Longrightarrow> fst km < length ls"
proof (induction ls arbitrary: km)
  case Nil
  then show ?case by simp
next
  case (Cons l ls)
  then show ?case by (auto split: option.splits)
qed

text \<open>A section that starts before a label line ends at that line at the latest.\<close>

lemma parseQuotas_prefix:
  assumes "is_boundary L" "parseQuotas p (L # xs) = parseQuotas p (L # ys)"
  shows "parseQuotas p (pre @ L # xs) = parseQuotas p (pre @ L # ys)"
proof (induction "length pre" arbitrary: pre rule: less_induct)
  case less
  show ?case
  proof (cases pre)
    case Nil
    with assms(2) show ?thesis by simp
  next
    case (Cons l pre')
    have tw: "takeWhile (\<lambda>l. \<not> is_boundary l) (pre' @ L # zs) = takeWhile (\<lambda>l. \<not> is_boundary l) pre'" for zs
      using assms(1) by (simp add: takeWhile_stop)
    define n where "n = Suc (length (takeWhile (\<lambda>l. \<not> is_boundary l) pre'))"
    have n: "sectionLength (pre' @ L # zs) = n" for zs
      by (simp add: sectionLength_def tw n_def)
    have nle: "n \<le> Suc (length pre')"
      unfolding n_def using length_takeWhile_le [of "\<lambda>l. \<not> is_boundary l" pre'] by simp
    have win: "take k (l # pre' @ L # zs) = take k (l # pre')" if "k \<le> n" for k zs
      using that nle by (cases k) simp_all
    have rec: "parseQuotas p (drop j pre' @ L # xs) = parseQuotas p (drop j pre' @ L # ys)" for j
      by (rule less) (simp add: Cons le_imp_less_Suc)
    have step: "parseQuotas p (l # pre' @ L # zs) =
      (case find_label QUOTA_LABELS l of
        None \<Rightarrow> parseQuotas p (drop 0 pre' @ L # zs)
      | Some ty \<Rightarrow>
          (case first_percent (take (min 6 n) (l # pre')) of
             None \<Rightarrow> parseQuotas p (drop 0 pre' @ L # zs)
           | Some jm \<Rightarrow>
               (case parseResetTime p (take n (l # pre')) of
                  Inl e \<Rightarrow> Inl e
                | Inr info \<Rightarrow>
                    (case parseQuotas p (drop (fst jm) pre' @ L # zs) of
                       Inl e \<Rightarrow> Inl e
                     | Inr qs \<Rightarrow>
                         Inr (\<lparr>qtype = ty, percent_remaining = percentRemaining (snd jm),
                               resets_at = fst info, time_remaining_seconds = fst (snd info),
                               time_remaining_human = snd (snd info)\<rparr> # qs)))))" for zs
    proof (cases "find_label QUOTA_LABELS l")
      case None
      then show ?thesis by simp
    next
      case (Some ty)
      show ?thesis
      proof (cases "first_percent (take (min 6 n) (l # pre'))")
        case None
        with Some show ?thesis by (simp add: n win Let_def)
      next
        case jm: (Some jm)
        from first_percent_index [OF jm] nle have "fst jm \<le> length pre'" by simp
        then have d: "drop (fst jm) (pre' @ L # zs) = drop (fst jm) pre' @ L # zs" by simp
        from Some jm show ?thesis
          by (simp add: n win Let_def d del: drop_append cong: sum.case_cong)
      qed
    qed
    show ?thesis
      unfolding Cons append_Cons step rec by (rule refl)
  qed
qed

lemma firstPass_drop:
  assumes "\<forall>l\<in>set m. \<not> re_test RESET_WORD_RE l"
  shows "firstPass p (a @ m @ b) = firstPass p (a @ b)"
proof (induction a)
  case Nil
  from assms show ?case by (induction m) simp_all
next
  case (Cons x a)
  then show ?case by (simp split: option.split sum.split)
qed

lemma secondPass_drop:
  assumes "\<forall>l\<in>set m. \<not> re_test CLOCK_RE l \<or> re_test PERCENT_RE l"
  shows "secondPass p (a @ m @ b) = secondPass p (a @ b)"
proof (induction a)
  case Nil
  from assms show ?case by (induction m) auto
next
  case (Cons x a)
  then show ?case by (simp split: option.split sum.split)
qed

lemma parseResetTime_drop:
  assumes "\<forall>l\<in>set m. \<not> re_test RESET_WORD_RE l"
    and "\<forall>l\<in>set m. \<not> re_test CLOCK_RE l \<or> re_test PERCENT_RE l"
  shows "parseResetTime p (a @ m @ b) = parseResetTime p (a @ b)"
  unfolding parseResetTime_def firstPass_drop [OF assms(1)] secondPass_drop [OF assms(2)]
  by (rule refl)

lemma parseQuotas_skips:
  "\<forall>l\<in>set m. \<not> is_boundary l \<Longrightarrow> parseQuotas p (m @ r) = parseQuotas p r"
  by (induction m) (simp_all add: parseQuotas_skip del: parseQuotas.simps)

lemma first_percent_append:
  "first_percent a = Some km \<Longrightarrow> first_percent (a @ b) = Some km"
proof (induction a arbitrary: km)
  case Nil
  then show ?case by simp
next
  case (Cons l a)
  then show ?case by (auto split: option.splits)
qed

lemma first_percent_hit:
  assumes "first_percent a = None" "re_match PERCENT_RE P = Some m"
  shows "first_percent (a @ P # b) = Some (length a, m)"
  using assms(1)
proof (induction a)
  case Nil
  with assms(2) show ?case by simp
next
  case (Cons l a)
  then show ?case by (auto split: option.splits)
qed

lemma first_percent_none:
  assumes "first_percent a = None" "\<forall>l\<in>set b. \<not> re_test PERCENT_RE l"
  shows "first_percent (a @ b) = None"
  using assms(1)
proof (induction a)
  case Nil
  from assms(2) show ?case
  proof (induction b)
    case Nil
    then show ?case by simp
  next
    case (Cons l b)
    from Cons.prems have "\<not> re_test PERCENT_RE l" by simp
    then have "re_match PERCENT_RE l = None"
      by (cases "exec_from PERCENT_RE [] l") (simp_all add: re_test_def re_match_def)
    with Cons show ?case by simp
  qed
next
  case (Cons l a)
  then show ?case by (auto split: option.splits)
qed

lemma parseQuotas_section:
  assumes L: "find_label QUOTA_LABELS L = Some ty"
    and mid: "\<forall>l\<in>set mid. \<not> is_boundary l"
    and fp: "first_percent (L # mid) = Some (j, m)"
    and w: "length mid \<le> 5"
  shows "parseQuotas p (L # mid @ post) =
    (case parseResetTime p (L # mid @ takeWhile (\<lambda>l. \<not> is_boundary l) post) of
       Inl e \<Rightarrow> Inl e
     | Inr info \<Rightarrow>
         (case parseQuotas p post of
            Inl e \<Rightarrow> Inl e
          | Inr qs \<Rightarrow>
              Inr (\<lparr>qtype = ty, percent_remaining = percentRemaining m,
                    resets_at = fst info, time_remaining_seconds = fst (snd info),
                    time_remaining_human = snd (snd info)\<rparr> # qs)))"
proof -
  define k where "k = length (takeWhile (\<lambda>l. \<not> is_boundary l) post)"
  have tw: "takeWhile (\<lambda>l. \<not> is_boundary l) (mid @ post) = mid @ takeWhile (\<lambda>l. \<not> is_boundary l) post"
    using mid by (simp add: takeWhile_append2)
  have sl: "sectionLength (mid @ post) = Suc (length mid + k)"
    by (simp add: sectionLength_def tw k_def)
  have tk: "take (Suc (length mid + k)) (L # mid @ post)
      = L # mid @ takeWhile (\<lambda>l. \<not> is_boundary l) post"
    using takeWhile_eq_take [of "\<lambda>l. \<not> is_boundary l" post] by (simp add: k_def)
  from w have "length (L # mid) \<le> min 6 (Suc (length mid + k))"
    by simp
  then have "take (min 6 (Suc (length mid + k))) (L # mid @ post)
      = (L # mid) @ take (min 6 (Suc (length mid + k)) - length (L # mid)) post"
    using take_append [of "min 6 (Suc (length mid + k))" "L # mid" post] by simp
  with first_percent_append [OF fp]
  have fp': "first_percent (take (min 6 (Suc (length mid + k))) (L # mid @ post)) = Some (j, m)"
    by simp
  from first_percent_index [OF fp] have "j \<le> length mid" by simp
  then have "drop j (mid @ post) = drop j mid @ post" by simp
  moreover have "\<forall>l\<in>set (drop j mid). \<not> is_boundary l"
    using mid by (meson in_set_dropD)
  ultimately have d: "parseQuotas p (drop j (mid @ post)) = parseQuotas p post"
    by (simp add: parseQuotas_skips del: parseQuotas.simps)
  show ?thesis
    unfolding parseQuotas.simps(2) [of p L "mid @ post"] L sl Let_def option.case fp' tk
      fst_conv snd_conv d
    by simp
qed

lemma parseQuotas_base:
  assumes L: "find_label QUOTA_LABELS L = Some ty"
    and xs: "\<forall>l\<in>set xs. \<not> is_boundary l"
    and P: "re_test PERCENT_RE P" "\<not> re_test RESET_WORD_RE P" "\<not> is_boundary P"
    and ys: "\<forall>l\<in>set ys. \<not> is_boundary l \<and> \<not> re_test PERCENT_RE l
               \<and> \<not> re_test RESET_WORD_RE l \<and> \<not> re_test CLOCK_RE l"
    and R: "\<not> re_test PERCENT_RE R" "\<not> is_boundary R"
    and win: "length xs + length ys \<le> 3"
  shows "parseQuotas p (L # xs @ P # ys @ R # post) = parseQuotas p (L # xs @ R # ys @ P # post)"
proof -
  define tl where "tl = takeWhile (\<lambda>l. \<not> is_boundary l) post"
  from P(1) obtain mP where mP: "re_match PERCENT_RE P = Some mP"
    by (auto simp: re_test_def re_match_def)
  have a: "\<forall>l\<in>set (P # ys). \<not> re_test RESET_WORD_RE l"
    and b: "\<forall>l\<in>set (P # ys). \<not> re_test CLOCK_RE l \<or> re_test PERCENT_RE l"
    and a': "\<forall>l\<in>set (ys @ [P]). \<not> re_test RESET_WORD_RE l"
    and b': "\<forall>l\<in>set (ys @ [P]). \<not> re_test CLOCK_RE l \<or> re_test PERCENT_RE l"
    using P ys by auto
  have "parseResetTime p ((L # xs) @ (P # ys) @ R # tl) = parseResetTime p ((L # xs) @ R # tl)"
    by (rule parseResetTime_drop [OF a b])
  moreover have "parseResetTime p ((L # xs @ [R]) @ (ys @ [P]) @ tl) = parseResetTime p ((L # xs @ [R]) @ tl)"
    by (rule parseResetTime_drop [OF a' b'])
  ultimately have rt: "parseResetTime p (L # (xs @ P # ys @ [R]) @ tl)
      = parseResetTime p (L # (xs @ R # ys @ [P]) @ tl)"
    by simp
  have nbA: "\<forall>l\<in>set (xs @ P # ys @ [R]). \<not> is_boundary l"
    and nbB: "\<forall>l\<in>set (xs @ R # ys @ [P]). \<not> is_boundary l"
    using xs P(3) ys R(2) by auto
  have wA: "length (xs @ P # ys @ [R]) \<le> 5" and wB: "length (xs @ R # ys @ [P]) \<le> 5"
    using win by simp_all
  obtain j j' m where fa: "first_percent (L # xs @ P # ys @ [R]) = Some (j, m)"
    and fb: "first_percent (L # xs @ R # ys @ [P]) = Some (j', m)"
  proof (cases "first_percent (L # xs)")
    case None
    from first_percent_hit [OF None mP, of "ys @ [R]"]
    have 1: "first_percent (L # xs @ P # ys @ [R]) = Some (Suc (length xs), mP)"
      by simp
    from R(1) ys have "\<forall>l\<in>set (R # ys). \<not> re_test PERCENT_RE l" by simp
    from first_percent_none [OF None this]
    have "first_percent ((L # xs @ R # ys) @ P # []) = Some (length (L # xs @ R # ys), mP)"
      by (intro first_percent_hit [OF _ mP]) simp
    then have 2: "first_percent (L # xs @ R # ys @ [P]) = Some (Suc (Suc (length xs + length ys)), mP)"
      by simp
    from 1 2 show ?thesis by (rule that)
  next
    case (Some km)
    obtain j m where km: "km = (j, m)" by (cases km)
    from first_percent_append [OF Some, of "P # ys @ [R]"] first_percent_append [OF Some, of "R # ys @ [P]"]
    show ?thesis using that [of j m j] by (simp add: km)
  qed
  have "parseQuotas p (L # (xs @ P # ys @ [R]) @ post) = parseQuotas p (L # (xs @ R # ys @ [P]) @ post)"
    unfolding parseQuotas_section [OF L nbA fa wA] parseQuotas_section [OF L nbB fb wB]
      tl_def [symmetric] rt
    by (rule refl)
  then show ?thesis by simp
qed

text \<open>
  C1, within the window of the percentage scan: a quota section is made of a label line,
  a percentage line (it holds the percentage phrase, no reset word, and is no section
  boundary) and a reset line (it holds no percentage phrase and is no section boundary),
  with lines \<open>xs\<close> between the label line and the first of the two, and lines \<open>ys\<close>
  between the two (no section boundary among them, and in \<open>ys\<close> no percentage phrase,
  no reset word and no clock time). When the later of the two lines is among the first
  six lines of the section, the label line counted, \<open>parseQuotas\<close> returns the same for
  the two orders of the percentage line and the reset line, whatever comes before and
  after the section: the same records, with the same percentage, seconds and rendering,
  for the same host, hence the same reference instant.
\<close>

theorem reorder_in_window:
  assumes "find_label QUOTA_LABELS L \<noteq> None"
    and "\<forall>l\<in>set xs. \<not> is_boundary l"
    and "re_test PERCENT_RE P" "\<not> re_test RESET_WORD_RE P" "\<not> is_boundary P"
    and "\<forall>l\<in>set ys. \<not> is_boundary l \<and> \<not> re_test PERCENT_RE l
               \<and> \<not> re_test RESET_WORD_RE l \<and> \<not> re_test CLOCK_RE l"
    and "\<not> re_test PERCENT_RE R" "\<not> is_boundary R"
    and "length xs + length ys \<le> 3"
  shows "parseQuotas p (pre @ L # xs @ P # ys @ R # post)
       = parseQuotas p (pre @ L # xs @ R # ys @ P # post)"
proof -
  from assms(1) obtain ty where ty: "find_label QUOTA_LABELS L = Some ty" by auto
  from parseQuotas_base [OF ty assms(2-9)]
  have "parseQuotas p (L # xs @ P # ys @ R # post) = parseQuotas p (L # xs @ R # ys @ P # post)" .
  with find_label_boundary [OF ty] show ?thesis by (rule parseQuotas_prefix)
qed

theorem reorder_in_window_witness:
  "find_label QUOTA_LABELS (ustr ''Current session'') \<noteq> None
   \<and> \<not> is_boundary []
   \<and> re_test PERCENT_RE (ustr ''14% used'') \<and> \<not> re_test RESET_WORD_RE (ustr ''14% used'')
   \<and> \<not> is_boundary (ustr ''14% used'')
   \<and> \<not> re_test PERCENT_RE [] \<and> \<not> re_test RESET_WORD_RE [] \<and> \<not> re_test CLOCK_RE []
   \<and> \<not> re_test PERCENT_RE (ustr ''Resets 8pm (America/Toronto)'')
   \<and> \<not> is_boundary (ustr ''Resets 8pm (America/Toronto)'')
   \<and> length [[], []::ustring] + length [[]::ustring] \<le> 3
   \<and> parseQuotas test_host
        ([] @ ustr ''Current session'' # [[], []] @ ustr ''14% used'' # [[]]
          @ ustr ''Resets 8pm (America/Toronto)'' # week_lines)
       = Inr [session_quota, weekly_quota]
   \<and> parseQuotas test_host
        ([] @ ustr ''Current session'' # [[], []] @ ustr ''Resets 8pm (America/Toronto)'' # [[]]
          @ ustr ''14% used'' # week_lines)
       = Inr [session_quota, weekly_quota]"
proof -
  have 1: "find_label QUOTA_LABELS (ustr ''Current session'') \<noteq> None"
    by code_simp
  have b: "\<not> is_boundary []" "\<not> re_test PERCENT_RE []" "\<not> re_test RESET_WORD_RE []"
      "\<not> re_test CLOCK_RE []"
    by code_simp+
  from b have 2: "\<forall>l\<in>set [[], []]. \<not> is_boundary l"
    by simp
  have 3: "re_test PERCENT_RE (ustr ''14% used'')"
    by code_simp
  have 4: "\<not> re_test RESET_WORD_RE (ustr ''14% used'')"
    by code_simp
  have 5: "\<not> is_boundary (ustr ''14% used'')"
    by code_simp
  from b have 6: "\<forall>l\<in>set [[]]. \<not> is_boundary l \<and> \<not> re_test PERCENT_RE l
      \<and> \<not> re_test RESET_WORD_RE l \<and> \<not> re_test CLOCK_RE l"
    by simp
  have 7: "\<not> re_test PERCENT_RE (ustr ''Resets 8pm (America/Toronto)'')"
    by code_simp
  have 8: "\<not> is_boundary (ustr ''Resets 8pm (America/Toronto)'')"
    by code_simp
  have 9: "length [[], []::ustring] + length [[]::ustring] \<le> 3"
    by simp
  have v: "parseQuotas test_host
        ([] @ ustr ''Current session'' # [[], []] @ ustr ''14% used'' # [[]]
          @ ustr ''Resets 8pm (America/Toronto)'' # week_lines)
       = Inr [session_quota, weekly_quota]"
    by code_simp
  from reorder_in_window [OF 1 2 3 4 5 6 7 8 9, of test_host "[]" week_lines] 1 b 3 4 5 7 8 v
  show ?thesis
    by simp
qed

text \<open>
  C1, as the claim states it, fails: with four blank lines between the label line and the
  percentage line, the percentage line is the sixth line of the section and gives a
  record; after the swap it is the seventh, outside the window of the percentage scan,
  and the section gives no record.
\<close>

theorem reorder_outside_window:
  "parseQuotas test_host far_lines = Inr [session_quota]
   \<and> parseQuotas test_host far_lines_swapped = Inr []"
  by code_simp

section \<open>A clock time without a date\<close>





lemma ms_digits_upto1:
  assumes "(s', c') \<in> set (ms (Seq D (Upto 1 D)) (s, c))"
  shows "c' = c \<and> (\<exists>ds. s = ds @ s' \<and> digits ds \<and> length ds \<le> 2)"
proof -
  from assms obtain x s1 where x: "s = x # s1" "is_digit x"
      "(s', c') \<in> set (ms (Opt (Seq D Eps)) (s1, c))"
    by (auto simp: Upto_1 in_ms_Seq in_ms_Atom)
  from x(3) have "(s', c') = (s1, c) \<or> (s', c') \<in> set (ms (Seq D Eps) (s1, c))"
    by (auto simp only: in_ms_Opt)
  then show ?thesis
  proof
    assume "(s', c') = (s1, c)"
    with x have "c' = c \<and> s = [x] @ s' \<and> digits [x] \<and> length [x] \<le> 2"
      by (simp add: digits_def)
    then show ?thesis by blast
  next
    assume "(s', c') \<in> set (ms (Seq D Eps) (s1, c))"
    then obtain y where "s1 = y # s'" "is_digit y" "c' = c"
      by (auto simp: in_ms_Seq in_ms_Atom in_ms_Eps)
    with x have "c' = c \<and> s = [x, y] @ s' \<and> digits [x, y] \<and> length [x, y] \<le> 2"
      by (simp add: digits_def)
    then show ?thesis by blast
  qed
qed

lemma ms_two_digits:
  assumes "(s', c') \<in> set (ms (Rep 2 D) (s, c))"
  shows "c' = c \<and> (\<exists>ds. s = ds @ s' \<and> digits ds \<and> length ds = 2)"
proof -
  from assms obtain x y where "s = x # y # s'" "is_digit x" "is_digit y" "c' = c"
    by (auto simp: Rep_2 in_ms_Seq in_ms_Atom in_ms_Eps)
  then have "c' = c \<and> s = [x, y] @ s' \<and> digits [x, y] \<and> length [x, y] = 2"
    by (simp add: digits_def)
  then show ?thesis by blast
qed

lemma parseInt_upto2:
  assumes "digits ds" "length ds \<le> 2"
  shows "0 \<le> parseInt ds \<and> parseInt ds \<le> 99"
proof -
  from assms(1) have b: "0 \<le> parseInt ds \<and> parseInt ds < 10 ^ length ds"
    by (simp add: parseInt_bounds digits_def)
  from assms(2) have "(10::int) ^ length ds \<le> 10 ^ 2"
    by (intro power_increasing) simp_all
  with b show ?thesis by simp
qed

lemma time_caps_ms:
  assumes "(s', m) \<in> set (ms TIME_ONLY_RE (t, []))"
  shows "\<exists>ds. cap m 1 = Some ds \<and> digits ds \<and> length ds \<le> 2
           \<and> (cap m 2 = None \<or> (\<exists>mm. cap m 2 = Some mm \<and> digits mm \<and> length mm = 2))"
proof -
  have re: "TIME_ONLY_RE = Seq (Grp 1 (Seq D (Upto 1 D)))
      (Seq (Opt (Seq (W '':'') (Grp 2 (Rep 2 D)))) (Seq (Star S) (Grp 3 (Alt (W ''am'') (W ''pm'')))))"
    by (simp add: TIME_ONLY_RE_def)
  from assms obtain st1 where 1: "st1 \<in> set (ms (Grp 1 (Seq D (Upto 1 D))) (t, []))"
    and r1: "(s', m) \<in> set (ms (Seq (Opt (Seq (W '':'') (Grp 2 (Rep 2 D))))
        (Seq (Star S) (Grp 3 (Alt (W ''am'') (W ''pm''))))) st1)"
    unfolding re in_ms_Seq [of _ "Grp 1 (Seq D (Upto 1 D))"] by blast
  from r1 obtain st2 where 2: "st2 \<in> set (ms (Opt (Seq (W '':'') (Grp 2 (Rep 2 D)))) st1)"
    and r2: "(s', m) \<in> set (ms (Seq (Star S) (Grp 3 (Alt (W ''am'') (W ''pm'')))) st2)"
    unfolding in_ms_Seq [of _ "Opt (Seq (W '':'') (Grp 2 (Rep 2 D)))"] by blast
  from r2 obtain st3 where 3: "st3 \<in> set (ms (Star S) st2)"
    and 4: "(s', m) \<in> set (ms (Grp 3 (Alt (W ''am'') (W ''pm''))) st3)"
    unfolding in_ms_Seq [of _ "Star S"] by blast
  obtain s1 c1 where st1: "st1 = (s1, c1)" by (cases st1)
  obtain s2 c2 where st2: "st2 = (s2, c2)" by (cases st2)
  obtain s3 c3 where st3: "st3 = (s3, c3)" by (cases st3)
  from 1 st1 have 1: "(s1, c1) \<in> set (ms (Grp 1 (Seq D (Upto 1 D))) (t, []))" by simp
  from 2 st1 st2 have 2: "(s2, c2) \<in> set (ms (Opt (Seq (W '':'') (Grp 2 (Rep 2 D)))) (s1, c1))"
    by simp
  from 3 st2 st3 have 3: "(s3, c3) \<in> set (ms (Star S) (s2, c2))" by simp
  from 4 st3 have 4: "(s', m) \<in> set (ms (Grp 3 (Alt (W ''am'') (W ''pm''))) (s3, c3))" by simp
  from 1 obtain ds c0 where g: "(s1, c0) \<in> set (ms (Seq D (Upto 1 D)) (t, []))"
      "t = ds @ s1" "c1 = (1, ds) # c0"
    unfolding in_ms_Grp_cap by blast
  from ms_digits_upto1 [OF g(1)] obtain ds' where "c0 = []" "t = ds' @ s1" "digits ds'"
      "length ds' \<le> 2"
    by blast
  with g(2,3) have ds: "c1 = [(1, ds)]" "digits ds" "length ds \<le> 2"
    by simp_all
  from 2 have "c2 = c1 \<or> (\<exists>s0. (s2, c2) \<in> set (ms (Grp 2 (Rep 2 D)) (s0, c1)))"
    by (auto simp add: in_ms_Opt in_ms_Seq in_ms_Atom simp del: ms.simps(1-6,8))
  then have c2: "c2 = c1 \<or> (\<exists>mm. c2 = (2, mm) # c1 \<and> digits mm \<and> length mm = 2)"
  proof
    assume "c2 = c1" then show ?thesis by simp
  next
    assume "\<exists>s0. (s2, c2) \<in> set (ms (Grp 2 (Rep 2 D)) (s0, c1))"
    then obtain s0 mm c0' where g2: "(s2, c0') \<in> set (ms (Rep 2 D) (s0, c1))"
        "s0 = mm @ s2" "c2 = (2, mm) # c0'"
      unfolding in_ms_Grp_cap by blast
    from ms_two_digits [OF g2(1)] obtain mm' where "c0' = c1" "s0 = mm' @ s2" "digits mm'"
        "length mm' = 2"
      by blast
    with g2(2,3) have "c2 = (2, mm) # c1 \<and> digits mm \<and> length mm = 2"
      by simp
    then show ?thesis by blast
  qed
  from 3 have c3: "c3 = c2" using ms_Star_Atom by blast
  from 4 obtain w c0 where w: "m = (3, w) # c0"
      "(s', c0) \<in> set (ms (Alt (W ''am'') (W ''pm'')) (s3, c3))"
    unfolding in_ms_Grp_cap by blast
  from w(2) have "(s', c0) \<in> set (ms (W ''am'') (s3, c3)) \<or> (s', c0) \<in> set (ms (W ''pm'') (s3, c3))"
    by (simp only: in_ms_Alt)
  then have c0: "c0 = c3"
  proof
    assume "(s', c0) \<in> set (ms (W ''am'') (s3, c3))"
    from ms_Lits_ci [OF this] show ?thesis by (simp add: is_lower_def)
  next
    assume "(s', c0) \<in> set (ms (W ''pm'') (s3, c3))"
    from ms_Lits_ci [OF this] show ?thesis by (simp add: is_lower_def)
  qed
  from c2 show ?thesis
  proof
    assume "c2 = c1"
    with w(1) c0 c3 ds show ?thesis by (simp add: cap_def)
  next
    assume "\<exists>mm. c2 = (2, mm) # c1 \<and> digits mm \<and> length mm = 2"
    then obtain mm where "c2 = (2, mm) # c1" "digits mm" "length mm = 2" by blast
    with w(1) c0 c3 ds show ?thesis by (simp add: cap_def)
  qed
qed

lemma toHour24_range: "0 \<le> n \<Longrightarrow> n \<le> 99 \<Longrightarrow> 0 \<le> toHour24 n w \<and> toHour24 n w \<le> 99"
  by (simp add: toHour24_def Let_def)

lemma clock_of_range:
  assumes "re_match TIME_ONLY_RE line = Some m"
  shows "0 \<le> fst (clock_of m) \<and> fst (clock_of m) \<le> 99
       \<and> 0 \<le> snd (clock_of m) \<and> snd (clock_of m) \<le> 99"
proof -
  from re_match_ms [OF assms] obtain t s' where "(s', m) \<in> set (ms TIME_ONLY_RE (t, []))"
    by blast
  from time_caps_ms [OF this] obtain ds where ds: "cap m 1 = Some ds" "digits ds" "length ds \<le> 2"
      "cap m 2 = None \<or> (\<exists>mm. cap m 2 = Some mm \<and> digits mm \<and> length mm = 2)"
    by blast
  from parseInt_upto2 [OF ds(2,3)] have h: "0 \<le> parseInt ds \<and> parseInt ds \<le> 99" .
  from ds(4) have mi: "0 \<le> snd (clock_of m) \<and> snd (clock_of m) \<le> 99"
    using parseInt_upto2 by (auto simp: clock_of_def)
  from h ds(1) have "0 \<le> fst (clock_of m) \<and> fst (clock_of m) \<le> 99"
    by (simp add: clock_of_def the_default_def toHour24_range)
  with mi show ?thesis by simp
qed

text \<open>
  On a host whose dates keep one offset from UTC, the clock time of the next day is a
  minute at least after a reading of the clock with an hour up to 23 and a minute up to
  59, and the two dates of a clock time are a day apart.
\<close>

lemma utc_ms_diff:
  "utc_ms y mo (d + k) h mi - utc_ms y mo d h' mi'
     = k * 86400000 + (h - h') * 3600000 + (mi - mi') * 60000"
  by (simp add: utc_ms_def Let_def algebra_simps)

lemma next_day_later_fixed_offset:
  assumes tm: "re_match TIME_ONLY_RE line = Some m"
    and fx: "\<And>y mo d h mi. mkLocalTime p y mo d h mi = timeClip (utc_ms y mo d h mi - off * 60000)"
    and rd: "hour c \<le> 23" "minute c \<le> 59"
    and n0: "mkLocalTime p (year c) (month c) (day c) (hour c) (minute c) = Some n0"
    and a0: "mkLocalTime p (year c) (month c) (day c) (fst (clock_of m)) (snd (clock_of m))
               = Some a0"
    and a1: "mkLocalTime p (year c) (month c) (day c + 1) (fst (clock_of m)) (snd (clock_of m))
               = Some a1"
  shows "n0 + 60000 \<le> a1 \<and> a1 = a0 + 86400000"
proof -
  define h where "h = fst (clock_of m)"
  define mi where "mi = snd (clock_of m)"
  from clock_of_range [OF tm] have hb: "0 \<le> h" "0 \<le> mi"
    by (simp_all add: h_def mi_def)
  have cl: "x = t" if "timeClip t = Some x" for t x
    using that by (simp add: timeClip_def split: if_splits)
  from n0 have 1: "n0 = utc_ms (year c) (month c) (day c) (hour c) (minute c) - off * 60000"
    unfolding fx by (rule cl)
  from a0 have 2: "a0 = utc_ms (year c) (month c) (day c) h mi - off * 60000"
    unfolding fx h_def mi_def by (rule cl)
  from a1 have 3: "a1 = utc_ms (year c) (month c) (day c + 1) h mi - off * 60000"
    unfolding fx h_def mi_def by (rule cl)
  have "a1 - n0 = 1 * 86400000 + (h - hour c) * 3600000 + (mi - minute c) * 60000"
    unfolding 1 3 using utc_ms_diff [of "year c" "month c" "day c" 1 h mi "hour c" "minute c"]
    by simp
  moreover have "60000 \<le> 1 * 86400000 + (h - hour c) * 3600000 + (mi - minute c) * 60000"
    using hb rd by (simp add: algebra_simps)
  moreover have "a1 - a0 = 1 * 86400000 + (h - h) * 3600000 + (mi - mi) * 60000"
    unfolding 2 3 using utc_ms_diff [of "year c" "month c" "day c" 1 h mi h mi]
    by simp
  ultimately show ?thesis by simp
qed

lemma clock_time_fixed_offset:
  "parseAbsoluteTime test_host (ustr ''Resets 3pm (America/Toronto)'')
     = Inr (Some (80400, now test_host + 80400 * 1000))"
  by code_simp

lemma clock_time_same_day:
  "parseAbsoluteTime test_host (ustr ''Resets 8pm (America/Toronto)'')
     = Inr (Some (12000, now test_host + 12000 * 1000))"
  by code_simp

section \<open>Relative durations\<close>

lemma nogrp_caps: "nogrp r \<Longrightarrow> st' \<in> set (ms r st) \<Longrightarrow> snd st' = snd st"
proof (induction r st arbitrary: st' rule: ms.induct)
  case (1 p c)
  then show ?case by simp
next
  case (2 p x xs c)
  then show ?case by (simp split: if_splits)
next
  case (3 st)
  then show ?case by simp
next
  case (4 a b st)
  from "4.prems" obtain m where m: "m \<in> set (ms a st)" "st' \<in> set (ms b m)"
    by (simp only: in_ms_Seq) blast
  from "4.prems"(1) have n: "nogrp a" "nogrp b" by simp_all
  from "4.IH"(1) [OF n(1) m(1)] "4.IH"(2) [OF m(1) n(2) m(2)] show ?case by simp
next
  case (5 a b st)
  from "5.prems" have "st' \<in> set (ms a st) \<or> st' \<in> set (ms b st)" "nogrp a" "nogrp b"
    by (simp_all only: in_ms_Alt nogrp.simps)
  then show ?case using "5.IH" by blast
next
  case (6 a st)
  from "6.prems" have "st' \<in> set (ms a st) \<or> st' = st" "nogrp a"
    by (simp_all only: in_ms_Opt nogrp.simps)
  then show ?case using "6.IH" by blast
next
  case (7 a st)
  from "7.prems"(2) in_ms_Star [of st' a st]
  have "st' = st \<or> (\<exists>m \<in> set (ms a st). length (fst m) < length (fst st) \<and> st' \<in> set (ms (Star a) m))"
    by blast
  then show ?case
  proof
    assume "st' = st" then show ?thesis by simp
  next
    assume "\<exists>m \<in> set (ms a st). length (fst m) < length (fst st) \<and> st' \<in> set (ms (Star a) m)"
    then obtain m where m: "m \<in> set (ms a st)" "length (fst m) < length (fst st)"
        "st' \<in> set (ms (Star a) m)"
      by blast
    from "7.prems"(1) have n: "nogrp a" by simp
    from "7.IH"(1) [OF n m(1)] "7.IH"(2) [OF m(1) m(2) "7.prems"(1) m(3)] show ?thesis by simp
  qed
next
  case (8 n a st)
  then show ?case by simp
qed

text \<open>The greedy iteration of a class takes the longest run first.\<close>

lemma star_greedy:
  assumes "\<forall>x \<in> set ws. q x" "rest = [] \<or> \<not> q (hd rest)"
  shows "\<exists>more. ms (Star (Atom q)) (ws @ rest, c) = (rest, c) # more"
  using assms(1)
proof (induction ws)
  case Nil
  from assms(2) have "ms (Atom q) (rest, c) = []"
    by (cases rest) auto
  then show ?case by (simp add: ms_Star star_Nil)
next
  case (Cons x ws)
  then obtain more where more: "ms (Star (Atom q)) (ws @ rest, c) = (rest, c) # more"
    by auto
  from Cons.prems have "ms (Atom q) ((x # ws) @ rest, c) = [(ws @ rest, c)]"
    by simp
  then have "ms (Star (Atom q)) ((x # ws) @ rest, c)
      = ms (Star (Atom q)) (ws @ rest, c) @ [((x # ws) @ rest, c)]"
    by (subst ms_Star) (simp add: star_Cons star_Nil)
  with more show ?case by simp
qed

lemma split_unique:
  assumes "xs @ y # zs = as @ b # cs" "\<forall>x \<in> set xs. q x" "\<not> q y" "\<forall>a \<in> set as. q a" "\<not> q b"
  shows "xs = as \<and> y = b \<and> zs = cs"
proof -
  have "takeWhile q (xs @ y # zs) = xs" using assms(2,3) by (simp add: takeWhile_tail)
  moreover have "takeWhile q (as @ b # cs) = as" using assms(4,5) by (simp add: takeWhile_tail)
  ultimately have "xs = as" using assms(1) by simp
  with assms(1) show ?thesis by simp
qed

lemma rel_no_digit:
  assumes "s = [] \<or> \<not> is_digit (hd s)"
  shows "ms (rel_re l X) (s, c0) = []"
proof -
  from assms have "ms D (s, c0) = []" by (cases s) auto
  then have "ms (Grp 1 (Plus D)) (s, c0) = []"
    by (simp add: Plus_def)
  then show ?thesis by (simp add: rel_re_def)
qed

lemma plus_digits:
  assumes "(s', c') \<in> set (ms (Plus D) (s, c))"
  shows "c' = c \<and> (\<exists>ds. s = ds @ s' \<and> digits ds)"
proof -
  from assms obtain m where m: "m \<in> set (ms D (s, c))" "(s', c') \<in> set (ms (Star D) m)"
    unfolding Plus_def in_ms_Seq by blast
  obtain s1 c1 where m1: "m = (s1, c1)" by (cases m)
  from m(1) have "(s1, c1) \<in> set (ms D (s, c))" unfolding m1 .
  then obtain x where x: "s = x # s1" "is_digit x" "c1 = c"
    unfolding in_ms_Atom by blast
  from m(2) have "(s', c') \<in> set (ms (Star D) (s1, c))" unfolding m1 x(3) .
  from ms_Star_Atom [OF this] obtain ws where ws: "c' = c" "s1 = ws @ s'" "\<forall>x \<in> set ws. is_digit x"
    by blast
  with x have "c' = c \<and> s = (x # ws) @ s' \<and> digits (x # ws)"
    by (simp add: digits_def)
  then show ?thesis by blast
qed

lemma rel_match_shape:
  assumes "st' \<in> set (ms (rel_re l X) (s, c0))"
  shows "\<exists>d1 w1 y s3. s = d1 @ w1 @ y # s3 \<and> digits d1 \<and> (\<forall>x \<in> set w1. is_space x) \<and> ci l y"
proof -
  from assms obtain m1 where m1: "m1 \<in> set (ms (Grp 1 (Plus D)) (s, c0))"
    and r1: "st' \<in> set (ms (Seq (Star S) (Seq (Atom (ci l)) (Opt X))) m1)"
    unfolding rel_re_def in_ms_Seq [of _ "Grp 1 (Plus D)"] by blast
  from r1 obtain m2 where m2: "m2 \<in> set (ms (Star S) m1)"
    and r2: "st' \<in> set (ms (Seq (Atom (ci l)) (Opt X)) m2)"
    unfolding in_ms_Seq [of _ "Star S"] by blast
  from r2 obtain m3 where m3: "m3 \<in> set (ms (Atom (ci l)) m2)"
    unfolding in_ms_Seq [of _ "Atom (ci l)"] by blast
  obtain s1 c1 where e1: "m1 = (s1, c1)" by (cases m1)
  obtain s2 c2 where e2: "m2 = (s2, c2)" by (cases m2)
  obtain s3 c3 where e3: "m3 = (s3, c3)" by (cases m3)
  from m1 have "(s1, c1) \<in> set (ms (Grp 1 (Plus D)) (s, c0))" unfolding e1 .
  then obtain u c' where u: "(s1, c') \<in> set (ms (Plus D) (s, c0))" "s = u @ s1"
    unfolding in_ms_Grp_cap by blast
  from plus_digits [OF u(1)] obtain d1 where d1: "s = d1 @ s1" "digits d1" by blast
  from m2 have "(s2, c2) \<in> set (ms (Star S) (s1, c1))" unfolding e1 e2 .
  from ms_Star_Atom [OF this] obtain w1 where w1: "s1 = w1 @ s2" "\<forall>x \<in> set w1. is_space x"
    by blast
  from m3 have "(s3, c3) \<in> set (ms (Atom (ci l)) (s2, c2))" unfolding e2 e3 .
  then obtain y where y: "s2 = y # s3" "ci l y"
    unfolding in_ms_Atom by blast
  from d1 w1 y have "s = d1 @ w1 @ y # s3 \<and> digits d1 \<and> (\<forall>x \<in> set w1. is_space x) \<and> ci l y"
    by simp
  then show ?thesis by blast
qed

lemma rel_match_hd:
  assumes ds: "digits ds" and gap: "\<forall>x \<in> set gap. is_space x"
    and c: "ci l c" "\<not> is_digit c" "\<not> is_space c" and X: "nogrp X"
  shows "\<exists>st more. ms (rel_re l X) (ds @ gap @ c # r, []) = st # more \<and> snd st = [(1, ds)]"
proof -
  define rest where "rest = gap @ c # r"
  from ds obtain x ds' where dsx: "ds = x # ds'" "is_digit x" "\<forall>y \<in> set ds'. is_digit y"
    by (cases ds) (auto simp: digits_def)
  have nd: "rest = [] \<or> \<not> is_digit (hd rest)"
  proof (cases gap)
    case Nil
    with c(2) show ?thesis by (simp add: rest_def)
  next
    case (Cons g gs)
    with gap have "is_space g" by simp
    then have "\<not> is_digit g" by (auto simp: is_space_def is_digit_def)
    with Cons show ?thesis by (simp add: rest_def)
  qed
  from star_greedy [OF dsx(3) nd] obtain more1 where
    more1: "ms (Star D) (ds' @ rest, []) = (rest, []) # more1"
    by blast
  have "ms D (ds @ rest, []) = [(ds' @ rest, [])]"
    using dsx by simp
  then have "ms (Plus D) (ds @ rest, []) = (rest, []) # more1"
    using more1 by (simp add: Plus_def)
  then have g: "ms (Grp 1 (Plus D)) (ds @ rest, [])
      = (rest, [(1, ds)]) # map (close_grp 1 (ds @ rest)) more1"
    by (simp add: close_grp_def)
  have ns: "c # r = [] \<or> \<not> is_space (hd (c # r))"
    using c(3) by simp
  from star_greedy [OF gap ns] obtain more2 where
    more2: "ms (Star S) (gap @ c # r, [(1, ds)]) = (c # r, [(1, ds)]) # more2"
    by blast
  have a: "ms (Seq (Atom (ci l)) (Opt X)) (c # r, [(1, ds)])
      = ms X (r, [(1, ds)]) @ [(r, [(1, ds)])]"
    using c(1) by simp
  define T where "T = Seq (Star S) (Seq (Atom (ci l)) (Opt X))"
  have t: "ms T (rest, [(1, ds)])
      = (ms X (r, [(1, ds)]) @ [(r, [(1, ds)])])
        @ concat (map (ms (Seq (Atom (ci l)) (Opt X))) more2)"
    unfolding T_def ms.simps(4) [of "Star S"] rest_def more2 using a by simp
  have "ms (rel_re l X) (ds @ rest, [])
      = ms T (rest, [(1, ds)]) @ concat (map (ms T) (map (close_grp 1 (ds @ rest)) more1))"
    unfolding rel_re_def T_def [symmetric] ms.simps(4) [of "Grp 1 (Plus D)"] g by simp
  then have e: "ms (rel_re l X) (ds @ rest, [])
      = (ms X (r, [(1, ds)]) @ [(r, [(1, ds)])])
        @ (concat (map (ms (Seq (Atom (ci l)) (Opt X))) more2)
           @ concat (map (ms T) (map (close_grp 1 (ds @ rest)) more1)))"
    unfolding t by simp
  obtain st more0 where sm: "ms X (r, [(1, ds)]) @ [(r, [(1, ds)])] = st # more0"
    by (cases "ms X (r, [(1, ds)])") auto
  have "st \<in> set (st # more0)" by simp
  then have "st \<in> set (ms X (r, [(1, ds)]) @ [(r, [(1, ds)])])"
    unfolding sm [symmetric] .
  then have "st \<in> set (ms X (r, [(1, ds)])) \<or> st = (r, [(1, ds)])"
    by auto
  then have "snd st = [(1, ds)]"
  proof
    assume "st \<in> set (ms X (r, [(1, ds)]))"
    from nogrp_caps [OF X this] show ?thesis by simp
  next
    assume "st = (r, [(1, ds)])" then show ?thesis by simp
  qed
  moreover have "ms (rel_re l X) (ds @ rest, [])
      = st # (more0 @ (concat (map (ms (Seq (Atom (ci l)) (Opt X))) more2)
           @ concat (map (ms T) (map (close_grp 1 (ds @ rest)) more1))))"
    unfolding e sm by simp
  ultimately show ?thesis
    unfolding rest_def by blast
qed

lemma rel_mismatch:
  assumes ds: "digits ds" and gap: "\<forall>x \<in> set gap. is_space x"
    and c: "\<not> ci l c" "\<not> is_digit c" "\<not> is_space c"
    and l: "\<forall>y. ci l y \<longrightarrow> \<not> is_digit y \<and> \<not> is_space y"
  shows "ms (rel_re l X) (ds @ gap @ c # r, c0) = []"
proof (rule ccontr)
  assume "ms (rel_re l X) (ds @ gap @ c # r, c0) \<noteq> []"
  then obtain st' where "st' \<in> set (ms (rel_re l X) (ds @ gap @ c # r, c0))"
    by (cases "ms (rel_re l X) (ds @ gap @ c # r, c0)") auto
  from rel_match_shape [OF this] obtain d1 w1 y s3 where
    sh: "ds @ gap @ c # r = d1 @ w1 @ y # s3" "digits d1" "\<forall>x \<in> set w1. is_space x" "ci l y"
    by blast
  from l sh(4) have y: "\<not> is_digit y" "\<not> is_space y" by simp_all
  have sd: "\<not> is_digit x" if "is_space x" for x
    using that by (auto simp: is_space_def is_digit_def)
  obtain b1 t1 where bt1: "gap @ c # r = b1 # t1" "\<not> is_digit b1"
    using gap c(2) sd by (cases gap) auto
  obtain b2 t2 where bt2: "w1 @ y # s3 = b2 # t2" "\<not> is_digit b2"
    using sh(3) y(1) sd by (cases w1) auto
  from sh(1) bt1(1) bt2(1) have "ds @ b1 # t1 = d1 @ b2 # t2" by simp
  from split_unique [OF this _ bt1(2) _ bt2(2)] ds sh(2)
  have "ds = d1 \<and> b1 = b2 \<and> t1 = t2" by (simp add: digits_def)
  with bt1(1) bt2(1) have "gap @ c # r = w1 @ y # s3" by simp
  from split_unique [OF this gap c(3) sh(3) y(2)] have "c = y" by simp
  with sh(4) c(1) show False by simp
qed

lemma lower_char:
  assumes "(if is_upper x then x + 32 else x) = of_char l" "is_lower (of_char l)"
  shows "ci l x \<and> \<not> is_digit x \<and> \<not> is_space x"
proof -
  define k :: nat where "k = of_char l"
  from assms have k: "(if is_upper x then x + 32 else x) = k" "97 \<le> k" "k \<le> 122"
    by (simp_all add: k_def is_lower_def)
  then have x: "(is_upper x \<and> x + 32 = k) \<or> (\<not> is_upper x \<and> x = k)"
    by (cases "is_upper x") simp_all
  then have r: "65 \<le> x" "x \<le> 122"
    using k(2,3) by (auto simp: is_upper_def)
  from x k(2,3) have "x = k \<or> (is_lower k \<and> x + 32 = k)"
    by (auto simp: is_lower_def)
  then have "ci l x"
    unfolding ci_def Let_def k_def [symmetric] by blast
  moreover from r have "\<not> is_digit x" by (simp add: is_digit_def)
  moreover from r have "\<not> is_space x" by (simp add: is_space_def)
  ultimately show ?thesis by simp
qed

lemma lower_word:
  assumes "toLowerCase w = ustr v" "\<forall>l \<in> set v. is_lower (of_char l)"
  shows "length w = length v \<and> (\<forall>i < length w. ci (v ! i) (w ! i) \<and> \<not> is_digit (w ! i) \<and> \<not> is_space (w ! i))"
proof -
  from assms(1) have "length (toLowerCase w) = length (ustr v)" by simp
  then have len: "length w = length v"
    by (simp add: toLowerCase_def ustr_def)
  have "ci (v ! i) (w ! i) \<and> \<not> is_digit (w ! i) \<and> \<not> is_space (w ! i)" if "i < length w" for i
  proof -
    from assms(1) have "toLowerCase w ! i = ustr v ! i" by simp
    with that len have "(if is_upper (w ! i) then w ! i + 32 else w ! i) = of_char (v ! i)"
      by (simp add: toLowerCase_def ustr_def)
    moreover from assms(2) that len have "is_lower (of_char (v ! i))" by simp
    ultimately show ?thesis by (rule lower_char)
  qed
  with len show ?thesis by simp
qed

lemma unit_words_hd: "v \<in> set (unit_words u) \<Longrightarrow> v \<noteq> [] \<and> hd v = unit_letter u"
  by (cases u) auto

lemma unit_words_lower: "v \<in> set (unit_words u) \<Longrightarrow> \<forall>l \<in> set v. is_lower (of_char l)"
  by (cases u) (auto simp: is_lower_def)

lemma valid_word:
  assumes "valid_token t"
  shows "\<exists>c w'. tk_word t = c # w' \<and> ci (unit_letter (tk_unit t)) c \<and> \<not> is_digit c
           \<and> \<not> is_space c \<and> (\<forall>x \<in> set w'. \<not> is_digit x)"
proof -
  from assms obtain v where v: "v \<in> set (unit_words (tk_unit t))" "toLowerCase (tk_word t) = ustr v"
    by (auto simp: valid_token_def)
  from lower_word [OF v(2) unit_words_lower [OF v(1)]]
  have len: "length (tk_word t) = length v"
    and all: "\<forall>i < length (tk_word t). ci (v ! i) (tk_word t ! i) \<and> \<not> is_digit (tk_word t ! i)
        \<and> \<not> is_space (tk_word t ! i)"
    by simp_all
  from unit_words_hd [OF v(1)] have hv: "v \<noteq> []" "hd v = unit_letter (tk_unit t)" by simp_all
  with len obtain c w' where cw: "tk_word t = c # w'" by (cases "tk_word t") auto
  from all cw hv have "ci (unit_letter (tk_unit t)) c \<and> \<not> is_digit c \<and> \<not> is_space c"
    by (cases v) auto
  moreover have "\<forall>x \<in> set w'. \<not> is_digit x"
  proof
    fix x assume "x \<in> set w'"
    then obtain i where "i < length w'" "w' ! i = x" by (auto simp: in_set_conv_nth)
    with all cw show "\<not> is_digit x" by (auto dest: spec [of _ "Suc i"])
  qed
  ultimately show ?thesis using cw by blast
qed

lemma ci_letter_distinct:
  assumes "ci (unit_letter u') c" "u' \<noteq> u"
  shows "\<not> ci (unit_letter u) c"
  using assms
  by (cases u; cases u') (auto simp: ci_def Let_def is_lower_def is_upper_def)

lemma ci_letter_plain: "ci (unit_letter u) y \<Longrightarrow> \<not> is_digit y \<and> \<not> is_space y"
  by (cases u) (auto simp: ci_def Let_def is_lower_def is_upper_def is_digit_def is_space_def)

lemma exec_skip:
  assumes "\<forall>k < length region. ms r (drop k region @ tail, []) = []"
  shows "exec_from r pre (region @ tail) = exec_from r (rev region @ pre) tail"
  using assms
proof (induction region arbitrary: pre)
  case Nil
  then show ?case by simp
next
  case (Cons x xs)
  from Cons.prems have 0: "ms r (x # xs @ tail, []) = []"
    by (auto dest: spec [of _ 0])
  have "\<forall>k < length xs. ms r (drop k xs @ tail, []) = []"
  proof (intro allI impI)
    fix k assume "k < length xs"
    with Cons.prems have "ms r (drop (Suc k) (x # xs) @ tail, []) = []"
      by (auto dest: spec [of _ "Suc k"])
    then show "ms r (drop k xs @ tail, []) = []" by simp
  qed
  from Cons.IH [OF this] have "exec_from r (x # pre) (xs @ tail) = exec_from r (rev xs @ x # pre) tail" .
  with 0 show ?case by simp
qed

lemma skip_plain:
  assumes "\<forall>c \<in> set region. \<not> is_digit c"
  shows "exec_from (rel_re l X) pre (region @ tail) = exec_from (rel_re l X) (rev region @ pre) tail"
proof (rule exec_skip, intro allI impI)
  fix k assume k: "k < length region"
  then have "drop k region @ tail = region ! k # (drop (Suc k) region @ tail)"
    by (simp add: Cons_nth_drop_Suc)
  moreover from k assms have "\<not> is_digit (region ! k)" by simp
  ultimately show "ms (rel_re l X) (drop k region @ tail, []) = []"
    by (simp add: rel_no_digit)
qed

lemma skip_token:
  assumes v: "valid_token t" and u: "tk_unit t \<noteq> u"
  shows "exec_from (rel_re (unit_letter u) X) pre (render t @ tail)
       = exec_from (rel_re (unit_letter u) X) (rev (render t) @ pre) tail"
proof -
  from valid_word [OF v] obtain c w' where cw: "tk_word t = c # w'"
      "ci (unit_letter (tk_unit t)) c" "\<not> is_digit c" "\<not> is_space c" "\<forall>x \<in> set w'. \<not> is_digit x"
    by blast
  from v have ds: "digits (tk_digits t)" and gap: "\<forall>x \<in> set (tk_gap t). is_space x"
    and af: "\<forall>x \<in> set (tk_after t). \<not> is_digit x"
    by (simp_all add: valid_token_def list_all_iff)
  define tl where "tl = tk_gap t @ tk_word t @ tk_after t"
  have sd: "\<not> is_digit x" if "is_space x" for x
    using that by (auto simp: is_space_def is_digit_def)
  have tlnd: "\<forall>x \<in> set tl. \<not> is_digit x"
    using gap cw af sd by (auto simp: tl_def)
  from ci_letter_distinct [OF cw(2) u] have nc: "\<not> ci (unit_letter u) c" .
  have "\<forall>k < length (tk_digits t). ms (rel_re (unit_letter u) X)
      (drop k (tk_digits t) @ (tl @ tail), []) = []"
  proof (intro allI impI)
    fix k assume k: "k < length (tk_digits t)"
    with ds have dk: "digits (drop k (tk_digits t))"
      by (auto simp: digits_def dest: in_set_dropD)
    have "drop k (tk_digits t) @ (tl @ tail)
        = drop k (tk_digits t) @ tk_gap t @ c # (w' @ tk_after t @ tail)"
      by (simp add: tl_def cw(1))
    moreover have "ms (rel_re (unit_letter u) X)
        (drop k (tk_digits t) @ tk_gap t @ c # (w' @ tk_after t @ tail), []) = []"
      by (rule rel_mismatch [OF dk gap nc cw(3,4)]) (simp add: ci_letter_plain)
    ultimately show "ms (rel_re (unit_letter u) X) (drop k (tk_digits t) @ (tl @ tail), []) = []"
      by simp
  qed
  from exec_skip [OF this]
  have 1: "exec_from (rel_re (unit_letter u) X) pre (tk_digits t @ (tl @ tail))
      = exec_from (rel_re (unit_letter u) X) (rev (tk_digits t) @ pre) (tl @ tail)" .
  from skip_plain [OF tlnd]
  have 2: "exec_from (rel_re (unit_letter u) X) (rev (tk_digits t) @ pre) (tl @ tail)
      = exec_from (rel_re (unit_letter u) X) (rev tl @ rev (tk_digits t) @ pre) tail" .
  have r: "render t = tk_digits t @ tl" by (simp add: render_def tl_def)
  show ?thesis unfolding r using 1 2 by simp
qed

lemma hit_token:
  assumes v: "valid_token t" and X: "nogrp X"
  shows "\<exists>a b. exec_from (rel_re (unit_letter (tk_unit t)) X) pre (render t @ tail)
           = Some (a, b, [(1, tk_digits t)])"
proof -
  from valid_word [OF v] obtain c w' where cw: "tk_word t = c # w'"
      "ci (unit_letter (tk_unit t)) c" "\<not> is_digit c" "\<not> is_space c"
    by blast
  from v have ds: "digits (tk_digits t)" and gap: "\<forall>x \<in> set (tk_gap t). is_space x"
    by (simp_all add: valid_token_def list_all_iff)
  have r: "render t @ tail = tk_digits t @ tk_gap t @ c # (w' @ tk_after t @ tail)"
    by (simp add: render_def cw(1))
  from rel_match_hd [OF ds gap cw(2,3,4) X] obtain st rest where
    st: "ms (rel_re (unit_letter (tk_unit t)) X)
          (tk_digits t @ tk_gap t @ c # (w' @ tk_after t @ tail), []) = st # rest"
      "snd st = [(1, tk_digits t)]"
    by blast
  from ds obtain x xs where "tk_digits t = x # xs" by (cases "tk_digits t") (auto simp: digits_def)
  then obtain y ys where y: "tk_digits t @ tk_gap t @ c # (w' @ tk_after t @ tail) = y # ys"
    by simp
  from st have "exec_from (rel_re (unit_letter (tk_unit t)) X) pre (y # ys)
      = Some (rev pre, fst st, [(1, tk_digits t)])"
    unfolding y by simp
  then show ?thesis unfolding r y by blast
qed

lemma rel_scan:
  assumes "\<forall>t \<in> set toks. valid_token t" "\<forall>c \<in> set head. \<not> is_digit c" "nogrp X"
  shows "map_option (\<lambda>m. snd (snd m))
           (exec_from (rel_re (unit_letter u) X) pre (head @ concat (map render toks)))
       = map_option (\<lambda>t. [(1, tk_digits t)]) (find (\<lambda>t. tk_unit t = u) toks)"
  using assms(1,2)
proof (induction toks arbitrary: pre head)
  case Nil
  have "ms (rel_re (unit_letter u) X) ([], []) = []"
    by (simp add: rel_no_digit)
  then have "exec_from (rel_re (unit_letter u) X) (rev head @ pre) [] = None"
    by simp
  with skip_plain [OF Nil(2), of "unit_letter u" X pre "[]"] show ?case by simp
next
  case (Cons t toks)
  from Cons.prems(1) have vt: "valid_token t" and vs: "\<forall>t \<in> set toks. valid_token t"
    by simp_all
  have sk: "exec_from (rel_re (unit_letter u) X) pre (head @ concat (map render (t # toks)))
      = exec_from (rel_re (unit_letter u) X) (rev head @ pre) (render t @ concat (map render toks))"
    using skip_plain [OF Cons.prems(2)] by simp
  show ?case
  proof (cases "tk_unit t = u")
    case True
    from hit_token [OF vt assms(3), of "rev head @ pre" "concat (map render toks)"] True
    obtain a b where "exec_from (rel_re (unit_letter u) X) (rev head @ pre)
        (render t @ concat (map render toks)) = Some (a, b, [(1, tk_digits t)])"
      by auto
    with True show ?thesis unfolding sk by simp
  next
    case False
    have e: "\<forall>c \<in> set ([]::ustring). \<not> is_digit c" by simp
    from skip_token [OF vt False]
    have "exec_from (rel_re (unit_letter u) X) (rev head @ pre) (render t @ concat (map render toks))
        = exec_from (rel_re (unit_letter u) X) (rev (render t) @ rev head @ pre)
            ([] @ concat (map render toks))"
      by simp
    with Cons.IH [OF vs e, of "rev (render t) @ rev head @ pre"] False show ?thesis
      unfolding sk by simp
  qed
qed

lemma relative_shapes:
  "RELATIVE_DAYS = rel_re (unit_letter Days) (Seqs [W ''ay'', Opt (W ''s'')])"
  "RELATIVE_HOURS = rel_re (unit_letter Hours) (Alt (Seqs [W ''our'', Opt (W ''s'')]) (W ''r''))"
  "RELATIVE_MINS = rel_re (unit_letter Minutes) (Seqs [W ''in'', Opt (Seqs [W ''ute'', Opt (W ''s'')])])"
  by (simp_all add: RELATIVE_DAYS_def RELATIVE_HOURS_def RELATIVE_MINS_def rel_re_def)

lemma relative_nogrp:
  "nogrp (Seqs [W ''ay'', Opt (W ''s'')])"
  "nogrp (Alt (Seqs [W ''our'', Opt (W ''s'')]) (W ''r''))"
  "nogrp (Seqs [W ''in'', Opt (Seqs [W ''ute'', Opt (W ''s'')])])"
  by simp_all

lemma group1_rel:
  assumes "\<forall>t \<in> set toks. valid_token t" "\<forall>c \<in> set head. \<not> is_digit c" "nogrp X"
  shows "group1 (rel_re (unit_letter u) X) (head @ concat (map render toks))
       = map_option tk_digits (find (\<lambda>t. tk_unit t = u) toks)"
proof -
  from rel_scan [OF assms, of u "[]"]
  have "re_match (rel_re (unit_letter u) X) (head @ concat (map render toks))
      = map_option (\<lambda>t. [(1, tk_digits t)]) (find (\<lambda>t. tk_unit t = u) toks)"
    by (simp add: re_match_def)
  then show ?thesis
    by (cases "find (\<lambda>t. tk_unit t = u) toks") (simp_all add: group1_def cap_def)
qed

lemma relativeTime_tokens:
  assumes v: "\<forall>t \<in> set toks. valid_token t" and h: "\<forall>c \<in> set head. \<not> is_digit c"
    and ne: "toks \<noteq> []"
    and rg: "\<bar>now p + total toks * 1000\<bar> \<le> 8640000000000000"
  shows "relativeTime p (head @ concat (map render toks))
       = Some (Inr (Some (now p + total toks * 1000), total toks, formatDuration (total toks)))"
proof -
  define line where "line = head @ concat (map render toks)"
  have d: "group1 RELATIVE_DAYS line = map_option tk_digits (find (\<lambda>t. tk_unit t = Days) toks)"
    unfolding relative_shapes line_def by (rule group1_rel [OF v h relative_nogrp(1)])
  have hh: "group1 RELATIVE_HOURS line = map_option tk_digits (find (\<lambda>t. tk_unit t = Hours) toks)"
    unfolding relative_shapes line_def by (rule group1_rel [OF v h relative_nogrp(2)])
  have m: "group1 RELATIVE_MINS line = map_option tk_digits (find (\<lambda>t. tk_unit t = Minutes) toks)"
    unfolding relative_shapes line_def by (rule group1_rel [OF v h relative_nogrp(3)])
  from ne obtain t ts where tt: "toks = t # ts" by (cases toks) auto
  have some: "group1 RELATIVE_DAYS line \<noteq> None \<or> group1 RELATIVE_HOURS line \<noteq> None
      \<or> group1 RELATIVE_MINS line \<noteq> None"
    unfolding d hh m tt by (cases "tk_unit t") simp_all
  have days: "(case group1 RELATIVE_DAYS line of Some s \<Rightarrow> parseInt s | None \<Rightarrow> 0) = amount Days toks"
    unfolding d amount_def by (cases "find (\<lambda>t. tk_unit t = Days) toks") simp_all
  have hours: "(case group1 RELATIVE_HOURS line of Some s \<Rightarrow> parseInt s | None \<Rightarrow> 0) = amount Hours toks"
    unfolding hh amount_def by (cases "find (\<lambda>t. tk_unit t = Hours) toks") simp_all
  have mins: "(case group1 RELATIVE_MINS line of Some s \<Rightarrow> parseInt s | None \<Rightarrow> 0) = amount Minutes toks"
    unfolding m amount_def by (cases "find (\<lambda>t. tk_unit t = Minutes) toks") simp_all
  have iso: "toISOString (now p + total toks * 1000) = Inr (now p + total toks * 1000)"
    using rg by (simp add: toISOString_def)
  have "relativeTime p line
      = Some (Inr (Some (now p + total toks * 1000), total toks, formatDuration (total toks)))"
    unfolding relativeTime_def Let_def days hours mins total_def [symmetric] iso
    using some by simp
  then show ?thesis unfolding line_def .
qed

lemma firstPass_before:
  assumes "\<forall>l \<in> set before. \<not> re_test RESET_WORD_RE l"
  shows "firstPass p (before @ ls) = firstPass p ls"
  using assms by (induction before) simp_all

text \<open>
  C5: for a line that holds a reset word and is made of a head without a digit and of
  relative duration tokens (at least one), the first line of the context with a reset
  word, \<open>parseResetTime\<close> returns the seconds \<open>days * 86400 + hours * 3600 + minutes * 60\<close>
  of the tokens, whatever the clock reads, with their rendering, and the instant that
  many seconds after the reference instant. The instant is taken inside the range of
  dates, outside of which the host raises a \<open>RangeError\<close>.
\<close>

theorem relative_duration_exact:
  assumes "\<forall>l \<in> set before. \<not> re_test RESET_WORD_RE l"
    and "re_test RESET_WORD_RE (head @ concat (map render toks))"
    and "\<forall>c \<in> set head. \<not> is_digit c"
    and "toks \<noteq> []" and "\<forall>t \<in> set toks. valid_token t"
    and "\<bar>now p + total toks * 1000\<bar> \<le> 8640000000000000"
  shows "parseResetTime p (before @ (head @ concat (map render toks)) # after)
       = Inr (Some (now p + total toks * 1000), total toks, formatDuration (total toks))"
proof -
  from relativeTime_tokens [OF assms(5,3,4,6)] assms(2)
  have "firstPass p ((head @ concat (map render toks)) # after)
      = Inr (Some (Some (now p + total toks * 1000), total toks, formatDuration (total toks)))"
    by simp
  then have "firstPass p (before @ (head @ concat (map render toks)) # after)
      = Inr (Some (Some (now p + total toks * 1000), total toks, formatDuration (total toks)))"
    unfolding firstPass_before [OF assms(1)] .
  then show ?thesis
    unfolding parseResetTime_def by simp
qed

theorem relative_duration_exact_witness:
  "rel_head @ concat (map render rel_toks) = ustr ''Resets in 2d 5 hours 30 Min''
   \<and> re_test RESET_WORD_RE (rel_head @ concat (map render rel_toks))
   \<and> list_all valid_token rel_toks
   \<and> total rel_toks = 192600
   \<and> parseResetTime test_host
        ([ustr ''Current session'', ustr ''14% used'']
          @ (rel_head @ concat (map render rel_toks)) # [])
       = Inr (Some (now test_host + 192600 * 1000), 192600, ustr ''2d 5h'')"
proof -
  have 0: "rel_head @ concat (map render rel_toks) = ustr ''Resets in 2d 5 hours 30 Min''"
    by code_simp
  have 1: "\<forall>l \<in> set [ustr ''Current session'', ustr ''14% used'']. \<not> re_test RESET_WORD_RE l"
    by code_simp
  have 2: "re_test RESET_WORD_RE (rel_head @ concat (map render rel_toks))"
    by code_simp
  have 3: "\<forall>c \<in> set rel_head. \<not> is_digit c"
    by code_simp
  have 4: "rel_toks \<noteq> []"
    by (simp add: rel_toks_def)
  have v: "list_all valid_token rel_toks"
    by code_simp
  then have 5: "\<forall>t \<in> set rel_toks. valid_token t"
    by (simp add: list_all_iff)
  have t: "total rel_toks = 192600"
    by code_simp
  have 6: "\<bar>now test_host + total rel_toks * 1000\<bar> \<le> 8640000000000000"
    unfolding t by (simp add: test_host_def)
  have f: "formatDuration 192600 = ustr ''2d 5h''"
    by code_simp
  from relative_duration_exact [OF 1 2 3 4 5 6, of "[]"] 0 2 v t f show ?thesis
    by simp
qed

lemma relative_duration_out_of_range:
  "parseResetTime test_host [ustr ''Resets in 99999999999999d''] = Inl RangeError"
  by code_simp

end
